theory Spec2Isabelle
  imports Complex_Main "HOL-Library.Signed_Division" "HOL-Library.Log_Nat"
begin

section \<open>JavaScript numbers\<close>

text \<open>
  A JavaScript number is an IEEE 754 binary64 value: a rational with a significand of
  53 bits, an infinity or NaN. Every arithmetic operator computes the exact result and
  rounds it to the nearest such value, ties to the even significand. The sign of zero
  is not modelled: it shows only in a division by zero, and no divisor of the code
  below can be a negative zero.
\<close>

datatype number = Num rat | Infinity | NegInfinity | NaN

text \<open>Rounding to the nearest integer, ties to even.\<close>

definition rne :: "rat \<Rightarrow> int" where
  "rne x = (let f = \<lfloor>x\<rfloor>; d = x - of_int f in
     if d < 1 / 2 then f else if 1 / 2 < d then f + 1 else if even f then f else f + 1)"

text \<open>
  The binary exponent of a positive rational \<open>x\<close>, the integer \<open>e\<close> with
  \<open>2 powi e \<le> x < 2 powi (e + 1)\<close>, from the bit lengths of numerator and denominator.
\<close>

definition ilog2 :: "rat \<Rightarrow> int" where
  "ilog2 x = (case quotient_of x of (p, q) \<Rightarrow>
     let k = bitlen p - bitlen q in if 2 powi k \<le> x then k else k - 1)"

text \<open>
  Rounding to a significand of 53 bits with any exponent: the last place of \<open>x\<close> has
  the exponent \<open>ilog2 \<bar>x\<bar> - 52\<close>.
\<close>

definition fl :: "rat \<Rightarrow> rat" where
  "fl x = (if x = 0 then 0 else
     let e = ilog2 \<bar>x\<bar> - 52 in of_int (rne (x / 2 powi e)) * 2 powi e)"

text \<open>
  Rounding to a binary64 value: the exponent of the last place is at least \<open>- 1074\<close>
  (below \<open>2 powi (- 1022)\<close> the numbers are subnormal), and a rounded value of magnitude
  \<open>2 ^ 1024\<close> or more is an infinity.
\<close>

definition round_double :: "rat \<Rightarrow> number" where
  "round_double x = (if x = 0 then Num 0 else
     let e = max (ilog2 \<bar>x\<bar> - 52) (- 1074);
         y = of_int (rne (x / 2 powi e)) * 2 powi e
     in if 2 ^ 1024 \<le> \<bar>y\<bar> then (if 0 < x then Infinity else NegInfinity) else Num y)"

text \<open>
  The operators \<open>*\<close>, \<open>/\<close>, \<open>-\<close> and \<open>>\<close> on numbers: rounded exact arithmetic on
  finite operands, the IEEE rules on the others (NaN is contagious and compares false).
\<close>

fun js_mul :: "number \<Rightarrow> number \<Rightarrow> number" where
  "js_mul (Num a) (Num b) = round_double (a * b)"
| "js_mul NaN _ = NaN"
| "js_mul _ NaN = NaN"
| "js_mul (Num a) i =
     (if a = 0 then NaN else if (0 < a) = (i = Infinity) then Infinity else NegInfinity)"
| "js_mul i (Num b) =
     (if b = 0 then NaN else if (0 < b) = (i = Infinity) then Infinity else NegInfinity)"
| "js_mul i j = (if i = j then Infinity else NegInfinity)"

fun js_div :: "number \<Rightarrow> number \<Rightarrow> number" where
  "js_div (Num a) (Num b) =
     (if b = 0 then (if a = 0 then NaN else if 0 < a then Infinity else NegInfinity)
      else round_double (a / b))"
| "js_div NaN _ = NaN"
| "js_div _ NaN = NaN"
| "js_div (Num a) i = Num 0"
| "js_div i (Num b) = (if (0 \<le> b) = (i = Infinity) then Infinity else NegInfinity)"
| "js_div i j = NaN"

fun js_sub :: "number \<Rightarrow> number \<Rightarrow> number" where
  "js_sub (Num a) (Num b) = round_double (a - b)"
| "js_sub NaN _ = NaN"
| "js_sub _ NaN = NaN"
| "js_sub (Num a) i = (if i = Infinity then NegInfinity else Infinity)"
| "js_sub i (Num b) = i"
| "js_sub i j = (if i = j then NaN else i)"

fun js_gt :: "number \<Rightarrow> number \<Rightarrow> bool" where
  "js_gt (Num a) (Num b) = (b < a)"
| "js_gt NaN _ = False"
| "js_gt _ NaN = False"
| "js_gt (Num a) i = (i = NegInfinity)"
| "js_gt i (Num b) = (i = Infinity)"
| "js_gt i j = (i = Infinity \<and> j = NegInfinity)"

section \<open>The camera playground page (\<open>HomePage\<close>)\<close>

subsection \<open>Types and constants\<close>

text \<open>
  \<^verbatim>\<open>type OverlayMode = 'none' | 'thirds' | 'symmetry';\<close> and the type of the
  \<open>facingMode\<close> state, \<^verbatim>\<open>'user' | 'environment'\<close>, are string-literal unions:
  enumerations.
\<close>

datatype OverlayMode = none | thirds | symmetry

datatype FacingMode = user | environment

text \<open>
  \<^verbatim>\<open>type RatioOption = { label: string; value: number };\<close> The field \<open>value\<close> is
  \<open>val\<close> here (\<open>value\<close> is a keyword).
\<close>

record RatioOption =
  label :: string
  val :: number

text \<open>The table \<open>RATIOS\<close>; \<open>4 / 3\<close>, \<open>3 / 2\<close> and \<open>16 / 9\<close> are divisions of numbers.\<close>

definition RATIOS :: "RatioOption list" where
  "RATIOS =
    [\<lparr>label = ''1:1'', val = Num 1\<rparr>,
     \<lparr>label = ''4:3'', val = js_div (Num 4) (Num 3)\<rparr>,
     \<lparr>label = ''3:2'', val = js_div (Num 3) (Num 2)\<rparr>,
     \<lparr>label = ''16:9'', val = js_div (Num 16) (Num 9)\<rparr>]"

text \<open>
  The state of the page that the three switches touch: the \<open>useState\<close> cells
  \<open>facingMode\<close>, \<open>overlay\<close> and \<open>ratioIndex\<close>. \<open>ratioIndex\<close> is a number that only
  ever holds small integers, on which the arithmetic of numbers is exact; it is an
  \<open>int\<close> here. The fourth cell, \<open>stream\<close>, holds the media stream of the camera and
  is read by none of the functions below.
\<close>

record page =
  facingMode :: FacingMode
  overlay :: OverlayMode
  ratioIndex :: int

text \<open>The initial values given to \<open>useState\<close>: \<open>'user'\<close>, \<open>'none'\<close>, \<open>0\<close>.\<close>

definition initial :: page where
  "initial = \<lparr>facingMode = user, overlay = none, ratioIndex = 0\<rparr>"

text \<open>
  Reading a JavaScript array: an index inside the array gives the element, any other
  index gives \<open>undefined\<close> (here \<open>None\<close>).
\<close>

definition js_index :: "'a list \<Rightarrow> int \<Rightarrow> 'a option" where
  "js_index xs i = (if 0 \<le> i \<and> i < int (length xs) then Some (xs ! nat i) else None)"

subsection \<open>The three switches\<close>

text \<open>
  The updater functions handed to the state setters:
  \<^verbatim>\<open>(prev) => (prev === 'user' ? 'environment' : 'user')\<close>,
  \<^verbatim>\<open>(prev) => prev === 'none' ? 'thirds' : prev === 'thirds' ? 'symmetry' : 'none'\<close>,
  \<^verbatim>\<open>(prev) => (prev + 1) % RATIOS.length\<close>.
  JavaScript's \<open>%\<close> takes the sign of the dividend: \<open>smod\<close> on \<open>int\<close>.
\<close>

definition nextFacingMode :: "FacingMode \<Rightarrow> FacingMode" where
  "nextFacingMode prev = (if prev = user then environment else user)"

definition nextOverlay :: "OverlayMode \<Rightarrow> OverlayMode" where
  "nextOverlay prev = (if prev = none then thirds else if prev = thirds then symmetry else none)"

definition nextRatioIndex :: "int \<Rightarrow> int" where
  "nextRatioIndex prev = (prev + 1) smod int (length RATIOS)"

definition switchCamera :: "page \<Rightarrow> page" where
  "switchCamera s = s\<lparr>facingMode := nextFacingMode (facingMode s)\<rparr>"

definition switchOverlay :: "page \<Rightarrow> page" where
  "switchOverlay s = s\<lparr>overlay := nextOverlay (overlay s)\<rparr>"

definition switchRatio :: "page \<Rightarrow> page" where
  "switchRatio s = s\<lparr>ratioIndex := nextRatioIndex (ratioIndex s)\<rparr>"

text \<open>\<^verbatim>\<open>const currentRatio = RATIOS[ratioIndex];\<close>\<close>

definition currentRatio :: "page \<Rightarrow> RatioOption option" where
  "currentRatio s = js_index RATIOS (ratioIndex s)"

text \<open>
  The states the page can be in: the initial one, and whatever the three buttons make of
  a state the page can be in. Nothing else writes the three cells (\<open>handleCapture\<close>
  only reads them).
\<close>

inductive reachable :: "page \<Rightarrow> bool" where
  start: "reachable initial"
| camera: "reachable s \<Longrightarrow> reachable (switchCamera s)"
| overlay: "reachable s \<Longrightarrow> reachable (switchOverlay s)"
| ratio: "reachable s \<Longrightarrow> reachable (switchRatio s)"

subsection \<open>The crop region of \<open>handleCapture\<close>\<close>

text \<open>
  The arithmetic of \<open>handleCapture\<close> between reading the video's dimensions and drawing:
  \<^verbatim>\<open>
    const videoRatio = videoWidth / videoHeight;
    let cropWidth = videoWidth;
    let cropHeight = videoHeight;
    if (videoRatio > targetRatio) { cropWidth = videoHeight * targetRatio; }
    else { cropHeight = videoWidth / targetRatio; }
    const sx = (videoWidth - cropWidth) / 2;
    const sy = (videoHeight - cropHeight) / 2;
  \<close>
  The result is the source rectangle handed to \<open>drawImage\<close>.
\<close>

record crop =
  sx :: number
  sy :: number
  cropWidth :: number
  cropHeight :: number

definition crop_region :: "number \<Rightarrow> number \<Rightarrow> number \<Rightarrow> crop" where
  "crop_region videoWidth videoHeight targetRatio =
    (let videoRatio = js_div videoWidth videoHeight;
         cropWidth = (if js_gt videoRatio targetRatio then js_mul videoHeight targetRatio
                      else videoWidth);
         cropHeight = (if js_gt videoRatio targetRatio then videoHeight
                       else js_div videoWidth targetRatio)
     in \<lparr>sx = js_div (js_sub videoWidth cropWidth) (Num 2),
         sy = js_div (js_sub videoHeight cropHeight) (Num 2),
         cropWidth = cropWidth, cropHeight = cropHeight\<rparr>)"

text \<open>
  \<open>handleCapture\<close> up to the crop region it computes, which is the source rectangle
  of \<open>drawImage\<close> when the canvas has a 2D context. It returns early when the video or
  the canvas is not mounted (\<open>None\<close> for the pair of dimensions); reading \<open>.value\<close> of
  an undefined \<open>currentRatio\<close> would raise a \<open>TypeError\<close>; \<open>videoWidth\<close> and
  \<open>videoHeight\<close> are attributes of the video element, unsigned integers of 32 bits.
  The state of the page is only read.
\<close>

datatype capture_error = NotMounted | TypeError

definition handleCapture :: "page \<Rightarrow> (nat \<times> nat) option \<Rightarrow> capture_error + crop" where
  "handleCapture s video =
    (case video of
       None \<Rightarrow> Inl NotMounted
     | Some (videoWidth, videoHeight) \<Rightarrow>
        (case currentRatio s of
           None \<Rightarrow> Inl TypeError
         | Some r \<Rightarrow>
             Inr (crop_region (Num (of_nat videoWidth)) (Num (of_nat videoHeight)) (val r))))"

section \<open>The colour converter\<close>

text \<open>
  The conversions between HEX, RGB, HSL and CMYK. No file of the converter is among the
  sources, neither its functions nor tests or callers of them: every definition of this
  section is written from the specification, in exact rational arithmetic.
\<close>

text \<open>
  Modelled from the spec: the error taxonomy, which is not in the sources.
  ``\<open>InvalidFormat\<close> (malformed HEX string), \<open>OutOfRange\<close> (numeric field outside its
  declared domain for a decode-style conversion).''
\<close>

datatype conversion_error = InvalidFormat | OutOfRange

text \<open>
  Modelled from the spec: the colour models, which are not in the sources. ``Each color
  model is a fixed-shape numeric record'': RGB with fields r, g, b; CMYK with fields
  c, m, y, k; HSL with fields h, s, l, which are numbers that may be NaN or infinite
  (the decoder has to reject a hue that is not finite).
\<close>

datatype rgb = RGB rat rat rat

datatype cmyk = CMYK rat rat rat rat

datatype hsl = HSL number number number

text \<open>
  Modelled from the spec: the rounding of the final integer fields, which is not in the
  sources. ``Final integer fields (RGB bytes) rounded half-away-from-zero.''
\<close>

definition round_half_away :: "rat \<Rightarrow> int" where
  "round_half_away x = (if 0 \<le> x then \<lfloor>x + 1 / 2\<rfloor> else - \<lfloor>- x + 1 / 2\<rfloor>)"

text \<open>
  Modelled from the spec: the clamp of \<open>rgbToHex\<close>, which is not in the sources.
  ``Clamps each channel to [0,255] (rounding to nearest integer) before encoding.''
\<close>

definition clamp_channel :: "rat \<Rightarrow> nat" where
  "clamp_channel x = nat (round_half_away (max 0 (min 255 x)))"

text \<open>
  Modelled from the spec: the encoding of one channel by \<open>rgbToHex\<close>, which is not in
  the sources: two lowercase hexadecimal digits (``lowercase 6-digit form'').
\<close>

definition hex_digit :: "nat \<Rightarrow> char" where
  "hex_digit n = ''0123456789abcdef'' ! n"

definition hex_byte :: "nat \<Rightarrow> string" where
  "hex_byte n = [hex_digit (n div 16), hex_digit (n mod 16)]"

text \<open>
  Modelled from the spec: \<open>rgbToHex\<close>, which is not in the sources. ``Clamps each
  channel to [0,255] (rounding to nearest integer) before encoding; always emits
  lowercase 6-digit form with leading \<open>#\<close>.''
\<close>

fun rgbToHex :: "rgb \<Rightarrow> string" where
  "rgbToHex (RGB r g b) =
     CHR ''#'' # hex_byte (clamp_channel r) @ hex_byte (clamp_channel g) @ hex_byte (clamp_channel b)"

text \<open>
  Modelled from the spec: the value of a hexadecimal digit of either case (``3- or
  6-digit hex, case-insensitive''), which is not in the sources; \<open>None\<close> for any other
  character.
\<close>

definition hex_value :: "char \<Rightarrow> nat option" where
  "hex_value c =
     map_of (zip ''0123456789abcdef'' [0 ..< 16] @ zip ''ABCDEF'' [10 ..< 16]) c"

text \<open>
  Modelled from the spec: the optional leading \<open>#\<close> of \<open>hexToRgb\<close> (``with or without
  leading \<open>#\<close>''), which is not in the sources.
\<close>

definition strip_hash :: "string \<Rightarrow> string" where
  "strip_hash s = (case s of [] \<Rightarrow> [] | c # t \<Rightarrow> if c = CHR ''#'' then t else s)"

text \<open>
  Modelled from the spec: \<open>hexToRgb\<close>, which is not in the sources. ``Accepts 3- or
  6-digit hex (with or without leading \<open>#\<close>), case-insensitive; fails with
  \<open>InvalidFormat\<close> if length/charset does not match a hex color.'' A digit of the
  3-digit shorthand stands for the same digit twice.
\<close>

definition hexToRgb :: "string \<Rightarrow> conversion_error + rgb" where
  "hexToRgb s =
     (case those (map hex_value (strip_hash s)) of
        Some [r1, r0, g1, g0, b1, b0] \<Rightarrow>
          Inr (RGB (of_nat (16 * r1 + r0)) (of_nat (16 * g1 + g0)) (of_nat (16 * b1 + b0)))
      | Some [r1, g1, b1] \<Rightarrow>
          Inr (RGB (of_nat (16 * r1 + r1)) (of_nat (16 * g1 + g1)) (of_nat (16 * b1 + b1)))
      | _ \<Rightarrow> Inl InvalidFormat)"

text \<open>
  Modelled from the spec: what the specification calls a hex colour, stated on the
  string itself and not through the decoder: ``\<open>#\<close> + 6 hex digits (or 3-digit
  shorthand), case-insensitive'', ``with or without leading \<open>#\<close>''.
\<close>

definition is_hex_digit :: "char \<Rightarrow> bool" where
  "is_hex_digit c = (c \<in> set ''0123456789abcdefABCDEF'')"

definition is_hex_color :: "string \<Rightarrow> bool" where
  "is_hex_color s =
     ((length s = 3 \<or> length s = 6) \<and> list_all is_hex_digit s \<or>
      (length s = 4 \<or> length s = 7) \<and> hd s = CHR ''#'' \<and> list_all is_hex_digit (tl s))"

text \<open>
  Modelled from the spec: the divisions of \<open>rgbToCmyk\<close>, which is not in the sources.
  A division is \<open>None\<close> when its divisor is zero, so that a result of the conversion
  records that no division by zero was evaluated (``avoid divide-by-zero'').
\<close>

definition div_checked :: "rat \<Rightarrow> rat \<Rightarrow> rat option" where
  "div_checked x y = (if y = 0 then None else Some (x / y))"

text \<open>
  Modelled from the spec: \<open>rgbToCmyk\<close>, which is not in the sources. ``k = 1 - max(r,g,b);
  c,m,y derived by normalizing against (1-k); pure black (0,0,0) yields k=100, c=m=y=0
  by convention (avoid divide-by-zero).'' The channels are taken as fractions of 255
  and the result is in percent.
\<close>

fun rgbToCmyk :: "rgb \<Rightarrow> cmyk option" where
  "rgbToCmyk (RGB r g b) =
     (let r' = r / 255; g' = g / 255; b' = b / 255;
          k = 1 - max r' (max g' b')
      in if k = 1 then Some (CMYK 0 0 0 100)
         else
           (case (div_checked (1 - r' - k) (1 - k), div_checked (1 - g' - k) (1 - k),
                  div_checked (1 - b' - k) (1 - k)) of
              (Some c, Some m, Some y) \<Rightarrow> Some (CMYK (100 * c) (100 * m) (100 * y) (100 * k))
            | _ \<Rightarrow> None))"

text \<open>
  Modelled from the spec: the domain checks of \<open>hslToRgb\<close>, which is not in the
  sources: ``s or l outside [0,100] or h not finite''. An infinity or NaN is not finite
  and lies outside every interval.
\<close>

fun is_finite :: "number \<Rightarrow> bool" where
  "is_finite (Num x) = True"
| "is_finite _ = False"

fun in_percent_range :: "number \<Rightarrow> bool" where
  "in_percent_range (Num x) = (0 \<le> x \<and> x \<le> 100)"
| "in_percent_range _ = False"

text \<open>
  Modelled from the spec: the ``standard cylindrical transform'' from HSL to RGB, which
  is not in the sources: chroma \<open>(1 - |2l - 1|) s\<close>, the hue taken modulo 360 and split
  into six sectors of 60 degrees, the bytes rounded half away from zero.
\<close>

definition hsl_transform :: "rat \<Rightarrow> rat \<Rightarrow> rat \<Rightarrow> rgb" where
  "hsl_transform h s l =
     (let h' = (h - 360 * of_int \<lfloor>h / 360\<rfloor>) / 60;
          c = (1 - \<bar>2 * (l / 100) - 1\<bar>) * (s / 100);
          x = c * (1 - \<bar>h' - 2 * of_int \<lfloor>h' / 2\<rfloor> - 1\<bar>);
          m = l / 100 - c / 2;
          (r1, g1, b1) =
            (if h' < 1 then (c, x, 0) else if h' < 2 then (x, c, 0)
             else if h' < 3 then (0, c, x) else if h' < 4 then (0, x, c)
             else if h' < 5 then (x, 0, c) else (c, 0, x))
      in RGB (of_int (round_half_away (255 * (r1 + m))))
             (of_int (round_half_away (255 * (g1 + m))))
             (of_int (round_half_away (255 * (b1 + m)))))"

text \<open>
  Modelled from the spec: \<open>hslToRgb\<close>, which is not in the sources. ``Standard
  cylindrical transform; \<open>hslToRgb\<close> fails with \<open>OutOfRange\<close> if s or l outside [0,100]
  or h not finite.''
\<close>

fun hslToRgb :: "hsl \<Rightarrow> conversion_error + rgb" where
  "hslToRgb (HSL (Num h) (Num s) (Num l)) =
     (if in_percent_range (Num s) \<and> in_percent_range (Num l) then Inr (hsl_transform h s l)
      else Inl OutOfRange)"
| "hslToRgb (HSL h s l) = Inl OutOfRange"

section \<open>Properties of the switches\<close>

lemma length_RATIOS: "length RATIOS = 4"
  by (simp add: RATIOS_def)

lemma nextRatioIndex_nonneg:
  "0 \<le> i \<Longrightarrow> nextRatioIndex i = (i + 1) mod 4"
  by (simp add: nextRatioIndex_def length_RATIOS signed_modulo_int_def)

lemma reachable_ratioIndex_range:
  "reachable s \<Longrightarrow> 0 \<le> ratioIndex s \<and> ratioIndex s < 4"
proof (induction rule: reachable.induct)
  case start
  show ?case by (simp add: initial_def)
next
  case (camera s)
  then show ?case by (simp add: switchCamera_def)
next
  case (overlay s)
  then show ?case by (simp add: switchOverlay_def)
next
  case (ratio s)
  then show ?case by (simp add: switchRatio_def nextRatioIndex_nonneg)
qed

lemma index_cases:
  "0 \<le> i \<Longrightarrow> i < 4 \<Longrightarrow> i = 0 \<or> i = 1 \<or> i = 2 \<or> i = (3::int)"
  by arith

lemma switchRatio_4:
  assumes "0 \<le> ratioIndex s" "ratioIndex s < 4"
  shows "switchRatio (switchRatio (switchRatio (switchRatio s))) = s"
proof -
  from assms have "ratioIndex s = 0 \<or> ratioIndex s = 1 \<or> ratioIndex s = 2 \<or> ratioIndex s = 3"
    by (rule index_cases)
  then show ?thesis
    by (auto simp add: switchRatio_def nextRatioIndex_nonneg)
qed

lemma switchOverlay_3: "switchOverlay (switchOverlay (switchOverlay s)) = s"
  by (cases "overlay s") (simp_all add: switchOverlay_def nextOverlay_def)

text \<open>
  C9. The facing-mode toggle of \<open>switchCamera\<close> maps \<open>'user'\<close> to \<open>'environment'\<close> and
  \<open>'environment'\<close> to \<open>'user'\<close>; applied twice it gives back the facing mode it
  started from, and so does pressing the camera switch twice in any state of the page.
  A press of the camera switch applies the toggle to the facing mode of the page and
  leaves the overlay and the ratio index as they are.
\<close>

theorem switchCamera_involution:
  "nextFacingMode user = environment \<and> nextFacingMode environment = user \<and>
   nextFacingMode (nextFacingMode f) = f \<and> switchCamera (switchCamera s) = s \<and>
   facingMode (switchCamera s) = nextFacingMode (facingMode s) \<and>
   overlay (switchCamera s) = overlay s \<and> ratioIndex (switchCamera s) = ratioIndex s"
proof -
  have twice: "nextFacingMode (nextFacingMode g) = g" for g
    by (cases g) (simp_all add: nextFacingMode_def)
  have "switchCamera (switchCamera s) = s"
    by (cases s) (simp add: switchCamera_def twice)
  moreover have "facingMode (switchCamera s) = nextFacingMode (facingMode s)"
    "overlay (switchCamera s) = overlay s" "ratioIndex (switchCamera s) = ratioIndex s"
    by (simp_all add: switchCamera_def)
  moreover have "nextFacingMode user = environment" "nextFacingMode environment = user"
    by (simp_all add: nextFacingMode_def)
  ultimately show ?thesis
    by (simp add: twice)
qed

text \<open>
  C7. A press of the overlay switch replaces the overlay of the page by the next one in
  the order \<open>none \<rightarrow> thirds \<rightarrow> symmetry \<rightarrow> none\<close> and leaves the facing mode and the ratio
  index as they are; a press of the ratio switch replaces the ratio index by the next
  one in the order \<open>0 \<rightarrow> 1 \<rightarrow> 2 \<rightarrow> 3 \<rightarrow> 0\<close> and leaves the facing mode and the overlay as
  they are. The labels of the table are, in this order, \<open>1:1\<close>, \<open>4:3\<close>, \<open>3:2\<close>,
  \<open>16:9\<close>, so that the page, which starts at \<open>1:1\<close>, shows \<open>4:3\<close>, \<open>3:2\<close>, \<open>16:9\<close> and
  \<open>1:1\<close> again after one to four presses. From every state, three presses of the
  overlay switch return to it. In every state whose ratio index is one of the four
  modes, the current ratio is the entry of the table at the index, a press of the
  ratio switch makes it the cyclically next entry, and as many presses as there are
  ratios return to the state.
\<close>

theorem switches_cycle:
  "nextOverlay none = thirds \<and> nextOverlay thirds = symmetry \<and> nextOverlay symmetry = none \<and>
   overlay (switchOverlay s) = nextOverlay (overlay s) \<and>
   facingMode (switchOverlay s) = facingMode s \<and> ratioIndex (switchOverlay s) = ratioIndex s \<and>
   (switchOverlay ^^ 3) s = s \<and>
   map label RATIOS = [''1:1'', ''4:3'', ''3:2'', ''16:9''] \<and>
   nextRatioIndex 0 = 1 \<and> nextRatioIndex 1 = 2 \<and> nextRatioIndex 2 = 3 \<and> nextRatioIndex 3 = 0 \<and>
   ratioIndex (switchRatio s) = nextRatioIndex (ratioIndex s) \<and>
   facingMode (switchRatio s) = facingMode s \<and> overlay (switchRatio s) = overlay s \<and>
   map (\<lambda>n. map_option label (currentRatio ((switchRatio ^^ n) initial))) [0, 1, 2, 3, 4]
     = [Some ''1:1'', Some ''4:3'', Some ''3:2'', Some ''16:9'', Some ''1:1''] \<and>
   (0 \<le> ratioIndex s \<and> ratioIndex s < int (length RATIOS) \<longrightarrow>
      currentRatio s = Some (RATIOS ! nat (ratioIndex s)) \<and>
      currentRatio (switchRatio s)
        = Some (RATIOS ! nat ((ratioIndex s + 1) mod int (length RATIOS))) \<and>
      (switchRatio ^^ length RATIOS) s = s)"
proof -
  have "(switchOverlay ^^ 3) s = s"
    by (simp add: numeral_3_eq_3 switchOverlay_3)
  moreover have "map (\<lambda>n. map_option label (currentRatio ((switchRatio ^^ n) initial)))
      [0, 1, 2, 3, 4] = [Some ''1:1'', Some ''4:3'', Some ''3:2'', Some ''16:9'', Some ''1:1'']"
    by (simp add: eval_nat_numeral switchRatio_def initial_def nextRatioIndex_nonneg
        currentRatio_def js_index_def RATIOS_def)
  moreover have "map label RATIOS = [''1:1'', ''4:3'', ''3:2'', ''16:9'']"
    by (simp add: RATIOS_def)
  moreover have "overlay (switchOverlay s) = nextOverlay (overlay s)"
    "facingMode (switchOverlay s) = facingMode s" "ratioIndex (switchOverlay s) = ratioIndex s"
    by (simp_all add: switchOverlay_def)
  moreover have "ratioIndex (switchRatio s) = nextRatioIndex (ratioIndex s)"
    "facingMode (switchRatio s) = facingMode s" "overlay (switchRatio s) = overlay s"
    by (simp_all add: switchRatio_def)
  moreover have "currentRatio s = Some (RATIOS ! nat (ratioIndex s)) \<and>
      currentRatio (switchRatio s)
        = Some (RATIOS ! nat ((ratioIndex s + 1) mod int (length RATIOS))) \<and>
      (switchRatio ^^ length RATIOS) s = s"
    if range: "0 \<le> ratioIndex s \<and> ratioIndex s < int (length RATIOS)"
  proof -
    have "(switchRatio ^^ length RATIOS) s
        = switchRatio (switchRatio (switchRatio (switchRatio s)))"
      by (simp add: length_RATIOS numeral_Bit0 funpow_add)
    with range have ret: "(switchRatio ^^ length RATIOS) s = s"
      by (simp add: switchRatio_4 length_RATIOS)
    have cur: "currentRatio s = Some (RATIOS ! nat (ratioIndex s))"
      using range by (simp add: currentRatio_def js_index_def)
    have "0 \<le> (ratioIndex s + 1) mod 4" "(ratioIndex s + 1) mod 4 < 4"
      by simp_all
    then have "currentRatio (switchRatio s)
        = Some (RATIOS ! nat ((ratioIndex s + 1) mod int (length RATIOS)))"
      using range
      by (simp add: currentRatio_def js_index_def switchRatio_def nextRatioIndex_nonneg
          length_RATIOS)
    with ret cur show ?thesis
      by simp
  qed
  moreover have "nextOverlay none = thirds" "nextOverlay thirds = symmetry"
    "nextOverlay symmetry = none"
    by (simp_all add: nextOverlay_def)
  moreover have "nextRatioIndex 0 = 1" "nextRatioIndex 1 = 2" "nextRatioIndex 2 = 3"
    "nextRatioIndex 3 = 0"
    by (simp_all add: nextRatioIndex_nonneg)
  ultimately show ?thesis
    by blast
qed

theorem switches_cycle_witness:
  "0 \<le> ratioIndex (switchRatio initial) \<and>
   ratioIndex (switchRatio initial) < int (length RATIOS) \<and>
   ratioIndex (switchRatio initial) = 1 \<and>
   (switchRatio ^^ length RATIOS) (switchRatio initial) = switchRatio initial \<and>
   (switchOverlay ^^ 3) (switchRatio initial) = switchRatio initial \<and>
   overlay (switchOverlay (switchRatio initial)) = thirds \<and>
   ratioIndex (switchRatio (switchRatio initial)) = 2 \<and>
   map_option label (currentRatio (switchRatio initial)) = Some ''4:3'' \<and>
   map_option label (currentRatio (switchRatio (switchRatio initial))) = Some ''3:2''"
proof -
  have r: "ratioIndex (switchRatio initial) = 1"
    by (simp add: switchRatio_def initial_def nextRatioIndex_nonneg)
  have o: "overlay (switchRatio initial) = none"
    by (simp add: switchRatio_def initial_def)
  have l: "RATIOS ! nat 1 = \<lparr>label = ''4:3'', val = js_div (Num 4) (Num 3)\<rparr>"
    "RATIOS ! nat ((1 + 1) mod 4) = \<lparr>label = ''3:2'', val = js_div (Num 3) (Num 2)\<rparr>"
    by (simp_all add: RATIOS_def)
  show ?thesis
    using switches_cycle [of "switchRatio initial"] r o l by (simp add: length_RATIOS)
qed

text \<open>
  C10. The table \<open>RATIOS\<close> has four entries and the ratio index starts at \<open>0\<close>. In every
  state the page can reach, \<open>switchRatio\<close> sets the index to the previous one plus one
  modulo the length of the table, the index is one of \<open>0, 1, 2, 3\<close>, and \<open>currentRatio\<close>
  is an entry of the table (never \<open>undefined\<close>).
\<close>

theorem ratioIndex_in_range:
  assumes "reachable s"
  shows "length RATIOS = 4 \<and> ratioIndex initial = 0 \<and>
         ratioIndex (switchRatio s) = (ratioIndex s + 1) mod int (length RATIOS) \<and>
         ratioIndex s \<in> {0, 1, 2, 3} \<and>
         (\<exists>r \<in> set RATIOS. currentRatio s = Some r)"
proof -
  from assms have range: "0 \<le> ratioIndex s" "ratioIndex s < 4"
    using reachable_ratioIndex_range by simp_all
  then have "ratioIndex s \<in> {0, 1, 2, 3}"
    using index_cases [of "ratioIndex s"] by auto
  moreover have "ratioIndex (switchRatio s) = (ratioIndex s + 1) mod int (length RATIOS)"
    using range by (simp add: switchRatio_def nextRatioIndex_nonneg length_RATIOS)
  moreover have "nat (ratioIndex s) < length RATIOS"
    using range by (simp add: length_RATIOS)
  then have "\<exists>r \<in> set RATIOS. currentRatio s = Some r"
    using range by (simp add: currentRatio_def js_index_def length_RATIOS)
  ultimately show ?thesis
    by (simp add: length_RATIOS initial_def)
qed

theorem ratioIndex_in_range_witness:
  "reachable (switchRatio (switchRatio (switchRatio (switchRatio initial)))) \<and>
   ratioIndex (switchRatio (switchRatio (switchRatio initial))) = 3 \<and>
   ratioIndex (switchRatio (switchRatio (switchRatio (switchRatio initial)))) = 0 \<and>
   map_option label (currentRatio (switchRatio (switchRatio (switchRatio initial))))
     = Some ''16:9''"
proof -
  let ?s3 = "switchRatio (switchRatio (switchRatio initial))"
  have r3: "reachable ?s3"
    by (intro reachable.ratio reachable.start)
  have i3: "ratioIndex ?s3 = 3"
    by (simp add: switchRatio_def initial_def nextRatioIndex_nonneg)
  have "ratioIndex (switchRatio ?s3) = 0"
    using ratioIndex_in_range [OF r3] i3 by simp
  moreover have "map_option label (currentRatio ?s3) = Some ''16:9''"
    using i3 by (simp add: currentRatio_def js_index_def RATIOS_def)
  ultimately show ?thesis
    using i3 r3 by (simp add: reachable.ratio)
qed

section \<open>Properties of the colour converter\<close>

lemma hex_value_hex_digit: "n < 16 \<Longrightarrow> hex_value (hex_digit n) = Some n"
proof -
  assume "n < 16"
  then have "n \<in> {0, 1, 2, 3, 4, 5, 6, 7, 8, 9, 10, 11, 12, 13, 14, 15}"
    by simp arith
  then show ?thesis
    by (elim insertE emptyE; simp add: hex_value_def hex_digit_def upt_rec)
qed

lemma round_half_away_of_int: "round_half_away (of_int n) = n"
  by (simp add: round_half_away_def) linarith+

lemma clamp_channel_byte: "0 \<le> n \<Longrightarrow> n \<le> 255 \<Longrightarrow> clamp_channel (of_int n) = nat n"
proof -
  assume "0 \<le> n" "n \<le> 255"
  then have "max 0 (min 255 (of_int n :: rat)) = of_int n"
    by simp
  then show ?thesis
    by (simp add: clamp_channel_def round_half_away_of_int)
qed

lemma hex_value_Some_iff: "(\<exists>v. hex_value c = Some v) \<longleftrightarrow> is_hex_digit c"
  by (auto simp add: hex_value_def is_hex_digit_def upt_rec split: if_splits)

lemma those_map_Some:
  "those (map f xs) = Some vs \<Longrightarrow> length vs = length xs \<and> list_all (\<lambda>x. \<exists>v. f x = Some v) xs"
  by (induction xs arbitrary: vs) (auto split: option.splits)

lemma those_map_defined:
  "list_all (\<lambda>x. \<exists>v. f x = Some v) xs \<Longrightarrow> \<exists>vs. those (map f xs) = Some vs \<and> length vs = length xs"
  by (induction xs) (auto split: option.splits)


lemma those_map_hex_value:
  "(\<exists>vs. those (map hex_value body) = Some vs \<and> length vs = n) \<longleftrightarrow>
   length body = n \<and> list_all is_hex_digit body"
  using those_map_Some [of hex_value body] those_map_defined [of hex_value body]
  by (auto simp add: hex_value_Some_iff)

lemma hexToRgb_fails_iff:
  "hexToRgb s = Inl InvalidFormat \<longleftrightarrow>
   \<not> (\<exists>vs. those (map hex_value (strip_hash s)) = Some vs \<and> (length vs = 3 \<or> length vs = 6))"
  by (auto simp add: hexToRgb_def split: option.splits list.splits)

lemma hexToRgb_result: "hexToRgb s = Inl InvalidFormat \<or> (\<exists>c. hexToRgb s = Inr c)"
  by (auto simp add: hexToRgb_def split: option.splits list.splits)

lemma is_hex_color_strip:
  "is_hex_color s \<longleftrightarrow>
   (length (strip_hash s) = 3 \<or> length (strip_hash s) = 6) \<and> list_all is_hex_digit (strip_hash s)"
proof (cases s)
  case Nil
  then show ?thesis by (simp add: is_hex_color_def strip_hash_def)
next
  case (Cons c t)
  have "\<not> is_hex_digit CHR ''#''"
    by (simp add: is_hex_digit_def)
  with Cons show ?thesis
    by (cases "c = CHR ''#''") (auto simp add: is_hex_color_def strip_hash_def)
qed

lemma hexToRgb_fails_spec: "hexToRgb s = Inl InvalidFormat \<longleftrightarrow> \<not> is_hex_color s"
proof -
  let ?b = "strip_hash s"
  have "(\<exists>vs. those (map hex_value ?b) = Some vs \<and> (length vs = 3 \<or> length vs = 6)) \<longleftrightarrow>
        (length ?b = 3 \<or> length ?b = 6) \<and> list_all is_hex_digit ?b"
    using those_map_hex_value [of ?b 3] those_map_hex_value [of ?b 6] by blast
  then show ?thesis
    by (simp only: hexToRgb_fails_iff is_hex_color_strip)
qed

lemma hex_byte_decode:
  "n < 256 \<Longrightarrow> map hex_value (hex_byte n) = [Some (n div 16), Some (n mod 16)]"
  by (simp add: hex_byte_def hex_value_hex_digit)

text \<open>
  C1. For integers \<open>r\<close>, \<open>g\<close>, \<open>b\<close> between 0 and 255, \<open>hexToRgb\<close> applied to the
  string that \<open>rgbToHex\<close> makes of the colour succeeds and returns exactly that colour.
\<close>

theorem hex_round_trip:
  fixes r g b :: int
  assumes "0 \<le> r" "r \<le> 255" "0 \<le> g" "g \<le> 255" "0 \<le> b" "b \<le> 255"
  shows "hexToRgb (rgbToHex (RGB (of_int r) (of_int g) (of_int b)))
       = Inr (RGB (of_int r) (of_int g) (of_int b))"
proof -
  have byte: "16 * rat_of_nat (nat n div 16) + rat_of_nat (nat n mod 16) = rat_of_int n"
    if "0 \<le> n" for n :: int
  proof -
    have "rat_of_nat (16 * (nat n div 16) + nat n mod 16) = rat_of_nat (nat n)"
      by (simp only: mult_div_mod_eq)
    moreover have "rat_of_nat (nat n) = rat_of_int n"
      using that by simp
    ultimately show ?thesis
      by (simp only: of_nat_add of_nat_mult of_nat_numeral)
  qed
  have "strip_hash (rgbToHex (RGB (of_int r) (of_int g) (of_int b)))
      = hex_byte (nat r) @ hex_byte (nat g) @ hex_byte (nat b)"
    using assms by (simp add: strip_hash_def clamp_channel_byte)
  moreover have "those (map hex_value (hex_byte (nat r) @ hex_byte (nat g) @ hex_byte (nat b)))
      = Some [nat r div 16, nat r mod 16, nat g div 16, nat g mod 16, nat b div 16, nat b mod 16]"
    using assms by (simp add: hex_byte_decode)
  ultimately show ?thesis
    using assms by (simp add: hexToRgb_def byte)
qed

theorem hex_round_trip_witness:
  "rgbToHex (RGB 18 171 255) = ''#12abff'' \<and> hexToRgb ''#12abff'' = Inr (RGB 18 171 255)"
proof -
  have hex: "rgbToHex (RGB 18 171 255) = ''#12abff''"
    using clamp_channel_byte [of 18] clamp_channel_byte [of 171] clamp_channel_byte [of 255]
    by (simp add: hex_byte_def hex_digit_def)
  then show ?thesis
    using hex_round_trip [of 18 171 255] by simp
qed

text \<open>
  C3. \<open>hexToRgb\<close> fails with \<open>InvalidFormat\<close> on every string that is not a hex colour
  (three or six hexadecimal digits of either case, with or without a leading \<open>#\<close>) and
  succeeds on every string that is one; \<open>#zzz\<close> and \<open>12345\<close> are rejected. \<open>hslToRgb\<close>
  fails with \<open>OutOfRange\<close> when the saturation or the lightness is outside \<open>[0,100]\<close>
  or the hue is not finite, as for \<open>{h: 0, s: 150, l: 50}\<close>.
\<close>

theorem invalid_input_rejected:
  "(\<not> is_hex_color s \<longrightarrow> hexToRgb s = Inl InvalidFormat) \<and>
   (is_hex_color s \<longrightarrow> (\<exists>c. hexToRgb s = Inr c)) \<and>
   hexToRgb ''#zzz'' = Inl InvalidFormat \<and> hexToRgb ''12345'' = Inl InvalidFormat \<and>
   (\<not> in_percent_range sat \<or> \<not> in_percent_range l \<or> \<not> is_finite h \<longrightarrow>
      hslToRgb (HSL h sat l) = Inl OutOfRange) \<and>
   hslToRgb (HSL (Num 0) (Num 150) (Num 50)) = Inl OutOfRange"
proof -
  have "is_hex_color s \<longrightarrow> (\<exists>c. hexToRgb s = Inr c)"
    using hexToRgb_fails_spec [of s] hexToRgb_result [of s] by auto
  moreover have "\<not> is_hex_color ''#zzz''" "\<not> is_hex_color ''12345''"
    by (simp_all add: is_hex_color_def is_hex_digit_def)
  moreover have "hslToRgb (HSL h sat l) = Inl OutOfRange"
    if "\<not> in_percent_range sat \<or> \<not> in_percent_range l \<or> \<not> is_finite h"
    using that by (cases h; cases sat; cases l) auto
  ultimately show ?thesis
    by (simp add: hexToRgb_fails_spec)
qed

theorem invalid_input_rejected_witness:
  "is_hex_color ''#AbC'' \<and> hexToRgb ''#AbC'' = Inr (RGB 170 187 204) \<and>
   \<not> is_hex_color ''#12345g'' \<and> hexToRgb ''#12345g'' = Inl InvalidFormat \<and>
   \<not> is_finite NaN \<and> hslToRgb (HSL NaN (Num 10) (Num 20)) = Inl OutOfRange"
proof -
  have "is_hex_color ''#AbC''" "\<not> is_hex_color ''#12345g''"
    by (simp_all add: is_hex_color_def is_hex_digit_def)
  moreover have "hexToRgb ''#AbC'' = Inr (RGB 170 187 204)"
    by (simp add: hexToRgb_def strip_hash_def hex_value_def upt_rec)
  ultimately show ?thesis
    using invalid_input_rejected [of "''#12345g''" NaN "Num 20" "Num 10"]
      invalid_input_rejected [of "''#AbC''" NaN "Num 20" "Num 10"]
    by simp
qed

text \<open>
  C5. \<open>rgbToCmyk\<close> of pure black is \<open>{c: 0, m: 0, y: 0, k: 100}\<close>, and no division by zero
  is evaluated on the way (the result is not \<open>None\<close>).
\<close>

theorem black_cmyk: "rgbToCmyk (RGB 0 0 0) = Some (CMYK 0 0 0 100)"
  by simp

section \<open>The arithmetic of numbers and the crop region\<close>

subsection \<open>Powers of two\<close>

lemma p2_pos: "0 < (2::rat) powi e"
  by (simp add: zero_less_power_int)

lemma p2_add: "(2::rat) powi (a + b) = 2 powi a * 2 powi b"
  by (simp add: power_int_add)

lemma p2_split: "a + b = c \<Longrightarrow> (2::rat) powi a * 2 powi b = 2 powi c"
  using p2_add [of a b] by simp

lemma p2_diff: "(2::rat) powi (a - b) = 2 powi a / 2 powi b"
  by (simp add: power_int_diff)

lemma p2_mono: "a \<le> b \<Longrightarrow> (2::rat) powi a \<le> 2 powi b"
  by (simp add: power_int_increasing)

lemma p2_strict_mono: "a < b \<Longrightarrow> (2::rat) powi a < 2 powi b"
  by (simp add: power_int_strict_increasing)

lemma p2_less_cancel: "(2::rat) powi a < 2 powi b \<Longrightarrow> a < b"
  using p2_mono [of b a] by (cases "a < b") simp_all

lemma p2_nat: "0 \<le> e \<Longrightarrow> (2::rat) powi e = of_int (2 ^ nat e)"
  by (simp add: power_int_def)

subsection \<open>Rounding to an integer\<close>

lemma rne_bounds: "of_int (rne x) - 1 / 2 \<le> x \<and> x \<le> of_int (rne x) + 1 / 2"
  unfolding rne_def Let_def by (auto; linarith)

lemma rne_floor: "\<lfloor>x\<rfloor> \<le> rne x \<and> rne x \<le> \<lfloor>x\<rfloor> + 1"
  by (simp add: rne_def Let_def)

lemma rne_between: "of_int n \<le> x \<Longrightarrow> x < of_int n + 1 / 2 \<Longrightarrow> rne x = n"
proof -
  assume a: "of_int n \<le> x" "x < of_int n + 1 / 2"
  then have "\<lfloor>x\<rfloor> = n"
    by (simp add: floor_unique)
  with a show ?thesis
    by (simp add: rne_def)
qed

lemma rne_of_int: "rne (of_int n) = n"
  by (rule rne_between) simp_all

lemma rne_mono: "x \<le> y \<Longrightarrow> rne x \<le> rne y"
proof -
  assume xy: "x \<le> y"
  then have f: "\<lfloor>x\<rfloor> \<le> \<lfloor>y\<rfloor>"
    by (rule floor_mono)
  show ?thesis
  proof (cases "\<lfloor>x\<rfloor> = \<lfloor>y\<rfloor>")
    case True
    with xy show ?thesis
      by (auto simp add: rne_def Let_def)
  next
    case False
    with f have "\<lfloor>x\<rfloor> + 1 \<le> \<lfloor>y\<rfloor>"
      by simp
    then show ?thesis
      using rne_floor [of x] rne_floor [of y] by linarith
  qed
qed

subsection \<open>The binary exponent\<close>

lemma ilog2_bounds:
  assumes "0 < x"
  shows "2 powi ilog2 x \<le> x \<and> x < 2 powi (ilog2 x + 1)"
proof -
  obtain p q where pq: "quotient_of x = (p, q)"
    by (cases "quotient_of x")
  then have q: "0 < q" and x: "x = of_int p / of_int q"
    by (simp_all add: quotient_of_denom_pos quotient_of_div)
  from assms q x have p: "0 < p"
    by (simp add: zero_less_divide_iff)
  define bp bq where "bp = bitlen p" and "bq = bitlen q"
  have bp1: "1 \<le> bp" and bq1: "1 \<le> bq"
    using p q bitlen_eq_zero_iff [of p] bitlen_eq_zero_iff [of q] bitlen_nonneg [of p]
      bitlen_nonneg [of q]
    unfolding bp_def bq_def by linarith+
  have P: "(2::rat) powi (bp - 1) \<le> of_int p \<and> of_int p < (2::rat) powi bp"
  proof -
    have "2 ^ nat (bp - 1) \<le> p \<and> p < 2 ^ nat bp"
      unfolding bp_def using p by (rule bitlen_bounds)
    then have "(of_int (2 ^ nat (bp - 1)) :: rat) \<le> of_int p \<and> (of_int p :: rat) < of_int (2 ^ nat bp)"
      by (simp only: of_int_le_iff of_int_less_iff)
    then show ?thesis
      using bp1 by (simp add: p2_nat)
  qed
  have Q: "(2::rat) powi (bq - 1) \<le> of_int q \<and> of_int q < (2::rat) powi bq"
  proof -
    have "2 ^ nat (bq - 1) \<le> q \<and> q < 2 ^ nat bq"
      unfolding bq_def using q by (rule bitlen_bounds)
    then have "(of_int (2 ^ nat (bq - 1)) :: rat) \<le> of_int q \<and> (of_int q :: rat) < of_int (2 ^ nat bq)"
      by (simp only: of_int_le_iff of_int_less_iff)
    then show ?thesis
      using bq1 by (simp add: p2_nat)
  qed
  have qpos: "(0::rat) < of_int q"
    using q by simp
  have lower: "2 powi (bp - bq - 1) < x"
  proof -
    have "2 powi (bp - bq - 1) * of_int q < (2::rat) powi (bp - bq - 1) * 2 powi bq"
      using Q p2_pos [of "bp - bq - 1"] by (simp add: mult_strict_left_mono)
    also have "\<dots> = 2 powi (bp - 1)"
      by (simp add: p2_add [symmetric])
    also have "\<dots> \<le> of_int p"
      using P by simp
    finally show ?thesis
      using qpos by (simp add: x pos_less_divide_eq)
  qed
  have upper: "x < 2 powi (bp - bq + 1)"
  proof -
    have "of_int p < (2::rat) powi bp"
      using P by simp
    also have "\<dots> = 2 powi (bp - bq + 1) * 2 powi (bq - 1)"
      by (simp add: p2_add [symmetric])
    also have "\<dots> \<le> 2 powi (bp - bq + 1) * of_int q"
      using Q p2_pos [of "bp - bq + 1"] by (simp add: mult_left_mono)
    finally show ?thesis
      using qpos by (simp add: x pos_divide_less_eq)
  qed
  show ?thesis
  proof (cases "2 powi (bp - bq) \<le> x")
    case True
    then have "ilog2 x = bp - bq"
      by (simp add: ilog2_def pq bp_def bq_def)
    with True upper show ?thesis
      by simp
  next
    case False
    then have "ilog2 x = bp - bq - 1"
      by (simp add: ilog2_def pq bp_def bq_def)
    with False lower show ?thesis
      by simp
  qed
qed

lemma ilog2_unique:
  assumes "0 < x" "2 powi e \<le> x" "x < 2 powi (e + 1)"
  shows "ilog2 x = e"
proof -
  have b: "2 powi ilog2 x \<le> x" "x < 2 powi (ilog2 x + 1)"
    using ilog2_bounds [OF assms(1)] by simp_all
  have "(2::rat) powi e < 2 powi (ilog2 x + 1)"
    using assms(2) b(2) by (rule le_less_trans)
  then have "e < ilog2 x + 1"
    by (rule p2_less_cancel)
  moreover have "(2::rat) powi ilog2 x < 2 powi (e + 1)"
    using b(1) assms(3) by (rule le_less_trans)
  then have "ilog2 x < e + 1"
    by (rule p2_less_cancel)
  ultimately show ?thesis
    by simp
qed

lemma ilog2_mono:
  assumes "0 < x" "x \<le> y"
  shows "ilog2 x \<le> ilog2 y"
proof -
  have "0 < y"
    using assms by simp
  have "(2::rat) powi ilog2 x \<le> x"
    using ilog2_bounds [OF assms(1)] by simp
  also have "x \<le> y" by fact
  also have "y < 2 powi (ilog2 y + 1)"
    using ilog2_bounds [OF \<open>0 < y\<close>] by simp
  finally have "ilog2 x < ilog2 y + 1"
    by (rule p2_less_cancel)
  then show ?thesis
    by simp
qed


subsection \<open>Rounding to 53 bits\<close>

lemma scaled_bounds:
  assumes "0 < x"
  shows "2 powi 52 \<le> x / 2 powi (ilog2 x - 52) \<and> x / 2 powi (ilog2 x - 52) < 2 powi 53"
proof -
  have b: "2 powi ilog2 x \<le> x" "x < 2 powi (ilog2 x + 1)"
    using ilog2_bounds [OF assms] by simp_all
  have "(2::rat) powi 52 * 2 powi (ilog2 x - 52) = 2 powi ilog2 x"
    by (rule p2_split) simp
  moreover have "(2::rat) powi 53 * 2 powi (ilog2 x - 52) = 2 powi (ilog2 x + 1)"
    by (rule p2_split) simp
  ultimately show ?thesis
    using b p2_pos [of "ilog2 x - 52"] by (simp only: pos_le_divide_eq pos_divide_less_eq)
qed

lemma fl_pos:
  "0 < x \<Longrightarrow> fl x = of_int (rne (x / 2 powi (ilog2 x - 52))) * 2 powi (ilog2 x - 52)"
  by (simp add: fl_def Let_def)

lemma fl_eval:
  assumes "0 < x" "2 powi e \<le> x" "x < 2 powi (e + 1)"
  shows "fl x = of_int (rne (x / 2 powi (e - 52))) * 2 powi (e - 52)"
  using fl_pos [OF assms(1)] ilog2_unique [OF assms] by simp

lemma rne_scaled:
  assumes "0 < x"
  shows "2 ^ 52 \<le> rne (x / 2 powi (ilog2 x - 52)) \<and> rne (x / 2 powi (ilog2 x - 52)) \<le> 2 ^ 53"
proof -
  let ?s = "x / 2 powi (ilog2 x - 52)"
  have s: "of_int (2 ^ 52) \<le> ?s" "?s \<le> of_int (2 ^ 53)"
    using scaled_bounds [OF assms] by simp_all
  have "rne (of_int (2 ^ 52)) \<le> rne ?s"
    using s(1) by (rule rne_mono)
  moreover have "rne ?s \<le> rne (of_int (2 ^ 53))"
    using s(2) by (rule rne_mono)
  ultimately show ?thesis
    by (simp only: rne_of_int)
qed

lemma fl_range:
  assumes "0 < x"
  shows "2 powi ilog2 x \<le> fl x \<and> fl x \<le> 2 powi (ilog2 x + 1)"
proof -
  let ?e = "ilog2 x - 52"
  let ?m = "rne (x / 2 powi ?e)"
  have m: "(2::rat) powi 52 \<le> of_int ?m" "(of_int ?m :: rat) \<le> 2 powi 53"
  proof -
    have "2 ^ 52 \<le> ?m" "?m \<le> 2 ^ 53"
      using rne_scaled [OF assms] by simp_all
    then have "(of_int (2 ^ 52) :: rat) \<le> of_int ?m" "(of_int ?m :: rat) \<le> of_int (2 ^ 53)"
      by (simp_all only: of_int_le_iff)
    then show "(2::rat) powi 52 \<le> of_int ?m" "(of_int ?m :: rat) \<le> 2 powi 53"
      by simp_all
  qed
  have "(2::rat) powi ilog2 x = 2 powi 52 * 2 powi ?e"
    by (rule p2_split [symmetric]) simp
  also have "\<dots> \<le> of_int ?m * 2 powi ?e"
    using m(1) p2_pos [of ?e] by (simp only: mult_right_mono less_imp_le)
  finally have lo: "2 powi ilog2 x \<le> fl x"
    by (simp only: fl_pos [OF assms])
  have "of_int ?m * 2 powi ?e \<le> (2::rat) powi 53 * 2 powi ?e"
    using m(2) p2_pos [of ?e] by (simp only: mult_right_mono less_imp_le)
  also have "\<dots> = 2 powi (ilog2 x + 1)"
    by (rule p2_split) simp
  finally have "fl x \<le> 2 powi (ilog2 x + 1)"
    by (simp only: fl_pos [OF assms])
  with lo show ?thesis
    by simp
qed

lemma fl_positive:
  assumes "0 < x"
  shows "0 < fl x"
  using fl_range [OF assms] p2_pos [of "ilog2 x"] by linarith

lemma fl_error:
  assumes "0 < x"
  shows "\<bar>fl x - x\<bar> \<le> 2 powi (ilog2 x - 53)"
proof -
  let ?e = "ilog2 x - 52"
  let ?s = "x / 2 powi ?e"
  have e: "(0::rat) < 2 powi ?e"
    by (rule p2_pos)
  have x: "x = ?s * 2 powi ?e"
    using e by simp
  have "\<bar>of_int (rne ?s) - ?s\<bar> \<le> 1 / 2"
    using rne_bounds [of ?s] by linarith
  then have "\<bar>of_int (rne ?s) - ?s\<bar> * 2 powi ?e \<le> 1 / 2 * 2 powi ?e"
    using e by (simp only: mult_right_mono less_imp_le)
  moreover have "\<bar>of_int (rne ?s) - ?s\<bar> * 2 powi ?e = \<bar>of_int (rne ?s) * 2 powi ?e - ?s * 2 powi ?e\<bar>"
    using e by (simp only: left_diff_distrib [symmetric] abs_mult abs_of_pos)
  moreover have "1 / 2 * (2::rat) powi ?e = 2 powi (ilog2 x - 53)"
  proof -
    have "(2::rat) powi (ilog2 x - 53) = 2 powi (- 1) * 2 powi ?e"
      by (rule p2_split [symmetric]) simp
    then show ?thesis
      by simp
  qed
  ultimately have "\<bar>of_int (rne ?s) * 2 powi ?e - ?s * 2 powi ?e\<bar> \<le> 2 powi (ilog2 x - 53)"
    by simp
  then show ?thesis
    using x by (simp only: fl_pos [OF assms])
qed

lemma fl_rel:
  assumes "0 < x"
  shows "\<bar>fl x - x\<bar> \<le> x * 2 powi (- 53)"
proof -
  have "(2::rat) powi (ilog2 x - 53) = 2 powi ilog2 x * 2 powi (- 53)"
    by (rule p2_split [symmetric]) simp
  also have "\<dots> \<le> x * 2 powi (- 53)"
    using ilog2_bounds [OF assms] p2_pos [of "- 53"] by (simp only: mult_right_mono less_imp_le)
  finally show ?thesis
    using fl_error [OF assms] by simp
qed

lemma fl_mono:
  assumes "0 < x" "x \<le> y"
  shows "fl x \<le> fl y"
proof -
  have y: "0 < y"
    using assms by simp
  have le: "ilog2 x \<le> ilog2 y"
    using assms by (rule ilog2_mono)
  show ?thesis
  proof (cases "ilog2 x = ilog2 y")
    case True
    let ?e = "ilog2 y - 52"
    have e: "(0::rat) < 2 powi ?e"
      by (rule p2_pos)
    then have "x / 2 powi ?e \<le> y / 2 powi ?e"
      using assms(2) by (simp add: divide_right_mono)
    then have "rne (x / 2 powi ?e) \<le> rne (y / 2 powi ?e)"
      by (rule rne_mono)
    then have "(of_int (rne (x / 2 powi ?e)) :: rat) \<le> of_int (rne (y / 2 powi ?e))"
      by (simp only: of_int_le_iff)
    then have "(of_int (rne (x / 2 powi ?e)) :: rat) * 2 powi ?e \<le> of_int (rne (y / 2 powi ?e)) * 2 powi ?e"
      using e by (simp only: mult_right_mono less_imp_le)
    then show ?thesis
      using True by (simp only: fl_pos [OF assms(1)] fl_pos [OF y])
  next
    case False
    with le have "ilog2 x + 1 \<le> ilog2 y"
      by simp
    then have "(2::rat) powi (ilog2 x + 1) \<le> 2 powi ilog2 y"
      by (rule p2_mono)
    then show ?thesis
      using fl_range [OF assms(1)] fl_range [OF y] by linarith
  qed
qed

lemma fl_exact:
  assumes "0 < x" "x / 2 powi (ilog2 x - 52) = of_int m"
  shows "fl x = x"
proof -
  have "fl x = of_int m * 2 powi (ilog2 x - 52)"
    by (simp only: fl_pos [OF assms(1)] assms(2) rne_of_int)
  also have "\<dots> = x"
    using p2_pos [of "ilog2 x - 52"] by (simp only: assms(2) [symmetric]) simp
  finally show ?thesis .
qed


lemma fl_repr:
  assumes "0 < m" "m < 2 ^ 53"
  shows "fl (of_int m * 2 powi e) = of_int m * 2 powi e"
proof -
  let ?x = "of_int m * (2::rat) powi e"
  let ?k = "ilog2 (of_int m)"
  have m: "(0::rat) < of_int m"
    using assms(1) by simp
  have x: "0 < ?x"
    using m p2_pos [of e] by simp
  have b: "(2::rat) powi ?k \<le> of_int m" "(of_int m :: rat) < 2 powi (?k + 1)"
    using ilog2_bounds [OF m] by simp_all
  have "(of_int m :: rat) < of_int (2 ^ 53)"
    using assms(2) by (simp only: of_int_less_iff)
  then have "(of_int m :: rat) < 2 powi 53"
    by simp
  with b(1) have "(2::rat) powi ?k < 2 powi 53"
    by (rule le_less_trans)
  then have k: "?k < 53"
    by (rule p2_less_cancel)
  have "(2::rat) powi (?k + e) \<le> ?x"
    using b(1) p2_pos [of e] by (simp only: p2_add mult_right_mono less_imp_le)
  moreover have "?x < 2 powi (?k + e + 1)"
  proof -
    have "?x < 2 powi (?k + 1) * 2 powi e"
      using b(2) p2_pos [of e] by (simp only: mult_strict_right_mono)
    also have "\<dots> = 2 powi (?k + e + 1)"
      by (rule p2_split) simp
    finally show ?thesis .
  qed
  ultimately have E: "ilog2 ?x = ?k + e"
    using x by (simp only: ilog2_unique)
  have split: "(2::rat) powi e = 2 powi (52 - ?k) * 2 powi (?k + e - 52)"
    by (rule p2_split [symmetric]) simp
  have "?x / 2 powi (?k + e - 52) = of_int m * 2 powi (52 - ?k)"
  proof -
    have "?x = (of_int m * 2 powi (52 - ?k)) * 2 powi (?k + e - 52)"
      by (simp only: split mult.assoc)
    then have "?x / 2 powi (?k + e - 52)
        = (of_int m * 2 powi (52 - ?k)) * 2 powi (?k + e - 52) / 2 powi (?k + e - 52)"
      by (rule arg_cong [of _ _ "\<lambda>z. z / 2 powi (?k + e - 52)"])
    also have "\<dots> = of_int m * 2 powi (52 - ?k)"
    proof (rule nonzero_mult_div_cancel_right)
      show "(2::rat) powi (?k + e - 52) \<noteq> 0"
        using p2_pos [of "?k + e - 52"] by simp
    qed
    finally show ?thesis .
  qed
  also have "\<dots> = of_int (m * 2 ^ nat (52 - ?k))"
    using k by (simp add: p2_nat)
  finally have "?x / 2 powi (ilog2 ?x - 52) = of_int (m * 2 ^ nat (52 - ?k))"
    by (simp only: E)
  with x show ?thesis
    by (rule fl_exact)
qed

lemma fl_of_nat:
  assumes "0 < n" "n < 2 ^ 53"
  shows "fl (of_nat n) = of_nat n"
proof -
  have "int n < 2 ^ 53"
    using assms(2) by (simp add: of_nat_less_iff [of n "2 ^ 53", where ?'a = int, simplified])
  then show ?thesis
    using assms(1) fl_repr [of "int n" 0] by simp
qed

lemma fl_idem:
  assumes "0 < x"
  shows "fl (fl x) = fl x"
proof -
  let ?e = "ilog2 x - 52"
  let ?m = "rne (x / 2 powi ?e)"
  have m: "2 ^ 52 \<le> ?m" "?m \<le> 2 ^ 53"
    using rne_scaled [OF assms] by simp_all
  show ?thesis
  proof (cases "?m = 2 ^ 53")
    case True
    have "of_int ?m * (2::rat) powi ?e = 2 powi 53 * 2 powi ?e"
      by (simp only: True) simp
    also have "\<dots> = 2 powi (ilog2 x + 1)"
      by (rule p2_split) simp
    finally have "fl x = of_int 1 * 2 powi (ilog2 x + 1)"
      by (simp only: fl_pos [OF assms] of_int_1 mult_1)
    then show ?thesis
      using fl_repr [of 1 "ilog2 x + 1"] by simp
  next
    case False
    with m have "0 < ?m" "?m < 2 ^ 53"
      by simp_all
    then have "fl (of_int ?m * 2 powi ?e) = of_int ?m * 2 powi ?e"
      by (rule fl_repr)
    then show ?thesis
      by (simp only: fl_pos [OF assms])
  qed
qed

lemma fl_half_ulp:
  assumes "0 < v" "fl v = v" "v \<le> x" "x < v + 2 powi (ilog2 v - 53)"
  shows "fl x = v"
proof -
  let ?E = "ilog2 v"
  let ?e = "?E - 52"
  let ?m = "rne (v / 2 powi ?e)"
  have e: "(0::rat) < 2 powi ?e"
    by (rule p2_pos)
  have v: "v = of_int ?m * 2 powi ?e"
    using fl_pos [OF assms(1)] assms(2) by simp
  have b: "2 powi ?E \<le> v" "v < 2 powi (?E + 1)"
    using ilog2_bounds [OF assms(1)] by simp_all
  have x: "0 < x"
    using assms(1,3) by simp
  have top: "(2::rat) powi 53 * 2 powi ?e = 2 powi (?E + 1)"
    by (rule p2_split) simp
  have half: "(2::rat) powi (?E - 53) = 1 / 2 * 2 powi ?e"
  proof -
    have "(2::rat) powi (- 1) * 2 powi ?e = 2 powi (?E - 53)"
      by (rule p2_split) simp
    then show ?thesis
      by simp
  qed
  have "of_int ?m * 2 powi ?e < (2::rat) powi 53 * 2 powi ?e"
    using b(2) v top by simp
  then have "(of_int ?m :: rat) < 2 powi 53"
    using e by (simp only: mult_less_cancel_right_pos)
  then have "(of_int ?m :: rat) < of_int (2 ^ 53)"
    by simp
  then have "?m < 2 ^ 53"
    by (simp only: of_int_less_iff)
  then have "?m + 1 \<le> 2 ^ 53"
    by simp
  then have "(of_int (?m + 1) :: rat) \<le> of_int (2 ^ 53)"
    by (simp only: of_int_le_iff)
  then have "(of_int ?m :: rat) + 1 \<le> 2 powi 53"
    by simp
  then have "(of_int ?m + 1) * 2 powi ?e \<le> (2::rat) powi 53 * 2 powi ?e"
    using e by (simp only: mult_right_mono less_imp_le)
  then have room: "v + 2 powi ?e \<le> 2 powi (?E + 1)"
    using v top by (simp add: distrib_right)
  have "x < 2 powi (?E + 1)"
    using assms(4) room half e by linarith
  moreover have "2 powi ?E \<le> x"
    using b(1) assms(3) by simp
  ultimately have fx: "fl x = of_int (rne (x / 2 powi ?e)) * 2 powi ?e"
    using x by (simp only: fl_eval)
  have ve: "v / 2 powi ?e = of_int ?m"
    using v e by (simp add: nonzero_divide_eq_eq)
  have "v / 2 powi ?e \<le> x / 2 powi ?e"
    using assms(3) e by (simp only: divide_right_mono less_imp_le)
  moreover have "x / 2 powi ?e < (v + 1 / 2 * 2 powi ?e) / 2 powi ?e"
    using assms(4) e half by (simp only: divide_strict_right_mono)
  moreover have "(v + 1 / 2 * 2 powi ?e) / 2 powi ?e = v / 2 powi ?e + 1 / 2"
    using e by (simp add: add_divide_distrib)
  ultimately have "rne (x / 2 powi ?e) = ?m"
    using ve by (intro rne_between) simp_all
  then show ?thesis
    using fx v by simp
qed


lemma fl_p2: "fl (2 powi k) = 2 powi k"
  using fl_repr [of 1 k] by simp

subsection \<open>Rounding to a binary64 value\<close>

lemma round_double_normal:
  assumes "2 powi (- 1022) \<le> x" "x < 2 powi 1023"
  shows "round_double x = Num (fl x)"
proof -
  have x: "0 < x"
    using assms(1) p2_pos [of "- 1022"] by linarith
  have b: "2 powi ilog2 x \<le> x" "x < 2 powi (ilog2 x + 1)"
    using ilog2_bounds [OF x] by simp_all
  have "(2::rat) powi (- 1022) < 2 powi (ilog2 x + 1)"
    using assms(1) b(2) by (rule le_less_trans)
  then have lo: "- 1022 < ilog2 x + 1"
    by (rule p2_less_cancel)
  have "(2::rat) powi ilog2 x < 2 powi 1023"
    using b(1) assms(2) by (rule le_less_trans)
  then have hi: "ilog2 x < 1023"
    by (rule p2_less_cancel)
  have ax: "\<bar>x\<bar> = x"
    using x by simp
  have e: "max (ilog2 x - 52) (- 1074) = ilog2 x - 52"
    using lo by simp
  define y where "y = of_int (rne (x / 2 powi (ilog2 x - 52))) * (2::rat) powi (ilog2 x - 52)"
  have fy: "fl x = y"
    by (simp only: y_def fl_pos [OF x])
  have "fl x \<le> 2 powi (ilog2 x + 1)"
    using fl_range [OF x] by simp
  also have "\<dots> < 2 powi 1024"
    using hi by (intro p2_strict_mono) simp
  finally have "y < 2 ^ 1024"
    by (simp only: power_int_numeral fy)
  moreover have "0 < y"
    using fl_positive [OF x] by (simp only: fy)
  ultimately have "\<not> 2 ^ 1024 \<le> \<bar>y\<bar>"
    by (simp only: abs_of_pos not_le)
  moreover have "x \<noteq> 0"
    using x by simp
  ultimately have "round_double x = Num y"
    unfolding round_double_def Let_def ax e y_def [symmetric]
    by (simp only: if_False)
  then show ?thesis
    by (simp only: fy)
qed

lemma round_double_mid:
  assumes "2 powi (- 40) \<le> x" "x \<le> 2 powi 40"
  shows "round_double x = Num (fl x)"
proof (rule round_double_normal)
  have "(2::rat) powi (- 1022) \<le> 2 powi (- 40)"
    by (rule p2_mono) simp
  with assms(1) show "2 powi (- 1022) \<le> x"
    by (rule order_trans [rotated])
  have "(2::rat) powi 40 < 2 powi 1023"
    by (rule p2_strict_mono) simp
  with assms(2) show "x < 2 powi 1023"
    by (rule le_less_trans)
qed

subsection \<open>Rounding of numerals\<close>

lemma rne_up: "of_int n - 1 / 2 < x \<Longrightarrow> x \<le> of_int n \<Longrightarrow> rne x = n"
proof (cases "x = of_int n")
  case True
  then show ?thesis
    by (simp only: rne_of_int)
next
  case False
  assume a: "of_int n - 1 / 2 < x" "x \<le> of_int n"
  with False have "of_int (n - 1) \<le> x" "x < of_int (n - 1) + 1"
    by simp_all
  then have "\<lfloor>x\<rfloor> = n - 1"
    by (rule floor_unique)
  with a show ?thesis
    by (simp add: rne_def)
qed

lemma fl_numeral:
  assumes "0 < x" "2 powi e \<le> x" "x < 2 powi (e + 1)" "rne (x * 2 powi (52 - e)) = n"
  shows "fl x = of_int n * 2 powi (e - 52)"
proof -
  have "(2::rat) powi (52 - e) * 2 powi (e - 52) = 2 powi 0"
    by (rule p2_split) simp
  then have "x / 2 powi (e - 52) = x * 2 powi (52 - e)"
    using p2_pos [of "e - 52"] by (simp add: field_simps)
  then show ?thesis
    using fl_eval [OF assms(1-3)] assms(4) by simp
qed

lemma fl_16_9: "fl (16 / 9) = 8006399337547548 / 4503599627370496"
proof -
  have "rne (16 / 9 * 2 powi (52 - 0)) = 8006399337547548"
    by (rule rne_between) simp_all
  then show ?thesis
    using fl_numeral [of "16 / 9" 0 8006399337547548]
    by (simp add: power_int_minus_divide)
qed

lemma fl_4_3: "fl (4 / 3) = 6004799503160661 / 4503599627370496"
proof -
  have "rne (4 / 3 * 2 powi (52 - 0)) = 6004799503160661"
    by (rule rne_between) simp_all
  then show ?thesis
    using fl_numeral [of "4 / 3" 0 6004799503160661]
    by (simp add: power_int_minus_divide)
qed

lemma fl_3_2: "fl (3 / 2) = 3 / 2"
  using fl_repr [of 3 "- 1"] by (simp add: power_int_minus_divide)

lemma fl_8_5: "fl (8 / 5) = 7205759403792794 / 4503599627370496"
proof -
  have "rne (8 / 5 * 2 powi (52 - 0)) = 7205759403792794"
    by (rule rne_up) simp_all
  then show ?thesis
    using fl_numeral [of "8 / 5" 0 7205759403792794]
    by (simp add: power_int_minus_divide)
qed

lemma fl_cw:
  "fl (800 * (6004799503160661 / 4503599627370496)) = 4691249611844266 / 4398046511104"
proof -
  have "rne (800 * (6004799503160661 / 4503599627370496) * 2 powi (52 - 10))
      = 4691249611844266"
    by (rule rne_between) simp_all
  then show ?thesis
    using fl_numeral [of "800 * (6004799503160661 / 4503599627370496)" 10 4691249611844266]
    by (simp add: power_int_minus_divide)
qed

lemma fl_q:
  "fl (4691249611844266 / 4398046511104 / 800) = 6004799503160660 / 4503599627370496"
proof -
  have "rne (4691249611844266 / 4398046511104 / 800 * 2 powi (52 - 0)) = 6004799503160660"
    by (rule rne_between) simp_all
  then show ?thesis
    using fl_numeral [of "4691249611844266 / 4398046511104 / 800" 0 6004799503160660]
    by (simp add: power_int_minus_divide)
qed

subsection \<open>The table of ratios and a crop whose ratio is not the target\<close>

lemma js_div_nz: "b \<noteq> 0 \<Longrightarrow> js_div (Num a) (Num b) = round_double (a / b)"
  by simp

lemma val_RATIOS:
  "map val RATIOS = [Num 1, Num (6004799503160661 / 4503599627370496), Num (3 / 2),
     Num (8006399337547548 / 4503599627370496)]"
proof -
  have "round_double (4 / 3) = Num (fl (4 / 3))" "round_double (3 / 2) = Num (fl (3 / 2))"
    "round_double (16 / 9) = Num (fl (16 / 9))"
    by (rule round_double_mid; simp add: power_int_minus_divide)+
  then show ?thesis
    by (simp add: RATIOS_def fl_4_3 fl_3_2 fl_16_9)
qed

text \<open>
  C8, as stated, fails. For a video of 1280 by 800 pixels and the ratio 4:3 the crop
  keeps the height and sets the width to \<open>800 * (4 / 3)\<close>, which is rounded down to
  \<open>1066.6666666666665\<close>; dividing that by 800 again gives \<open>1.333333333333333\<close>, the
  double below the entry \<open>1.3333333333333333\<close> of the table.
\<close>

theorem crop_ratio_counterexample:
  "val (RATIOS ! 1) = Num (6004799503160661 / 4503599627370496) \<and>
   js_div (cropWidth (crop_region (Num 1280) (Num 800) (val (RATIOS ! 1))))
          (cropHeight (crop_region (Num 1280) (Num 800) (val (RATIOS ! 1))))
     = Num (6004799503160660 / 4503599627370496) \<and>
   js_div (cropWidth (crop_region (Num 1280) (Num 800) (val (RATIOS ! 1))))
          (cropHeight (crop_region (Num 1280) (Num 800) (val (RATIOS ! 1))))
     \<noteq> val (RATIOS ! 1)"
proof -
  have r: "val (RATIOS ! 1) = Num (6004799503160661 / 4503599627370496)"
    using val_RATIOS by (simp add: RATIOS_def)
  have "js_div (Num 1280) (Num 800) = round_double (1280 / 800)"
    by (rule js_div_nz) simp
  also have "\<dots> = Num (fl (8 / 5))"
    using round_double_mid [of "8 / 5"] by (simp add: power_int_minus_divide)
  finally have vr: "js_div (Num 1280) (Num 800) = Num (7205759403792794 / 4503599627370496)"
    by (simp only: fl_8_5)
  have "round_double (800 * (6004799503160661 / 4503599627370496))
      = Num (fl (800 * (6004799503160661 / 4503599627370496)))"
    by (rule round_double_mid; simp add: power_int_minus_divide)
  then have cw: "js_mul (Num 800) (Num (6004799503160661 / 4503599627370496))
      = Num (4691249611844266 / 4398046511104)"
    by (simp only: js_mul.simps fl_cw)
  have "js_div (Num (4691249611844266 / 4398046511104)) (Num 800)
      = round_double (4691249611844266 / 4398046511104 / 800)"
    by (rule js_div_nz) simp
  also have "\<dots> = Num (fl (4691249611844266 / 4398046511104 / 800))"
    by (rule round_double_mid; simp add: power_int_minus_divide)
  finally have q: "js_div (Num (4691249611844266 / 4398046511104)) (Num 800)
      = Num (6004799503160660 / 4503599627370496)"
    by (simp only: fl_q)
  have c: "cropWidth (crop_region (Num 1280) (Num 800) (val (RATIOS ! 1)))
        = Num (4691249611844266 / 4398046511104)"
    "cropHeight (crop_region (Num 1280) (Num 800) (val (RATIOS ! 1))) = Num 800"
    by (simp_all only: crop_region_def Let_def r vr cw js_gt.simps crop.simps) simp_all
  have "js_div (cropWidth (crop_region (Num 1280) (Num 800) (val (RATIOS ! 1))))
          (cropHeight (crop_region (Num 1280) (Num 800) (val (RATIOS ! 1))))
      = Num (6004799503160660 / 4503599627370496)"
    by (simp only: c q)
  with r show ?thesis
    by simp
qed

subsection \<open>Fractions of small integers\<close>

lemma gap:
  fixes W H a b :: nat
  assumes "0 < H" "H < 2 ^ 32" "0 < b" "b \<le> 9"
    and less: "(of_nat a / of_nat b :: rat) < of_nat W / of_nat H"
  shows "(of_nat a / of_nat b :: rat) + 2 powi (- 40) \<le> of_nat W / of_nat H"
proof -
  define A B V K where "A = (of_nat a :: rat)" and "B = (of_nat b :: rat)"
    and "V = (of_nat W :: rat)" and "K = (of_nat H :: rat)"
  define d where "d = (2::rat) powi (- 40)"
  have pos: "0 < K" "0 < B"
    using assms(1,3) by (simp_all add: K_def B_def)
  have "A / B < V / K"
    using less by (simp only: A_def B_def V_def K_def)
  then have "A * K < V * B"
    using pos by (simp add: divide_less_eq pos_less_divide_eq mult.commute)
  then have "(of_nat (a * H) :: rat) < of_nat (W * b)"
    by (simp add: A_def B_def V_def K_def)
  then have "a * H < W * b"
    by (simp only: of_nat_less_iff)
  then have "a * H + 1 \<le> W * b"
    by simp
  then have "(of_nat (a * H + 1) :: rat) \<le> of_nat (W * b)"
    by (simp only: of_nat_le_iff)
  then have n: "A * K + 1 \<le> V * B"
    by (simp add: A_def B_def V_def K_def)
  have "b * H \<le> 9 * H"
    using assms(4) by simp
  also have "\<dots> < 9 * 2 ^ 32"
    using assms(2) by simp
  also have "\<dots> \<le> 2 ^ 40"
    by simp
  finally have "(of_nat (b * H) :: rat) < of_nat (2 ^ 40)"
    by (simp only: of_nat_less_iff)
  then have "B * K < 2 ^ 40"
    by (simp add: B_def K_def)
  then have "d * (B * K) \<le> 1"
    by (simp add: d_def power_int_minus_divide)
  with n have "A * K + d * (B * K) \<le> V * B"
    by linarith
  moreover have "(A / B + d) * (B * K) = A * K + d * (B * K)"
    using pos by (simp add: distrib_right)
  ultimately have "(A / B + d) * (B * K) \<le> V * B"
    by simp
  moreover have "0 < B * K"
    using pos by simp
  ultimately have "A / B + d \<le> V * B / (B * K)"
    by (simp only: pos_le_divide_eq)
  also have "V * B / (B * K) = V / K"
    using pos by simp
  finally show ?thesis
    by (simp only: A_def B_def V_def K_def d_def)
qed

lemma nat_rat_bounds:
  fixes n :: nat
  assumes "0 < n" "n < 2 ^ 32"
  shows "(1::rat) \<le> of_nat n" "(of_nat n :: rat) < 2 powi 32" "fl (of_nat n) = of_nat n"
proof -
  show "(1::rat) \<le> of_nat n"
    using assms(1) by simp
  have "(of_nat n :: rat) < of_nat (2 ^ 32)"
    using assms(2) by (simp only: of_nat_less_iff)
  then show "(of_nat n :: rat) < 2 powi 32"
    by simp
  have "n < 2 ^ 53"
    using assms(2) by simp
  with assms(1) show "fl (of_nat n) = of_nat n"
    by (rule fl_of_nat)
qed

lemma half_ulp_room:
  fixes H :: nat
  assumes "0 < H" "H < 2 ^ 32"
  shows "(of_nat H :: rat) / (2 ^ 54 - 1) < 2 powi (ilog2 (of_nat H) - 53)"
proof -
  define K where "K = (of_nat H :: rat)"
  define k where "k = ilog2 K"
  define P where "P = (2::rat) powi (k + 1)"
  have K: "1 \<le> K" "K < 2 powi 32"
    using nat_rat_bounds [OF assms] by (simp_all add: K_def)
  then have K0: "0 < K"
    by simp
  have b: "2 powi k \<le> K" "K < P"
    using ilog2_bounds [OF K0] by (simp_all add: k_def P_def)
  have "(2::rat) powi 0 < 2 powi (k + 1)"
    using K(1) b(2) by (simp add: P_def)
  then have "0 < k + 1"
    by (rule p2_less_cancel)
  then have k0: "0 \<le> k"
    by simp
  have "(2::rat) powi k < 2 powi 32"
    using b(1) K(2) by (rule le_less_trans)
  then have "k < 32"
    by (rule p2_less_cancel)
  then have "P \<le> 2 powi 32"
    unfolding P_def by (intro p2_mono) simp
  then have P32: "P \<le> 2 ^ 32"
    by simp
  have "P = of_int (2 ^ nat (k + 1))"
    unfolding P_def using k0 by (intro p2_nat) simp
  then have Pn: "P = of_nat (2 ^ nat (k + 1))"
    by simp
  with b(2) have "(of_nat H :: rat) < of_nat (2 ^ nat (k + 1))"
    by (simp only: K_def)
  then have "H < 2 ^ nat (k + 1)"
    by (simp only: of_nat_less_iff)
  then have "H + 1 \<le> 2 ^ nat (k + 1)"
    by simp
  then have "(of_nat (H + 1) :: rat) \<le> of_nat (2 ^ nat (k + 1))"
    by (simp only: of_nat_le_iff)
  then have K1: "K + 1 \<le> P"
    by (simp add: K_def Pn)
  have "K * 2 ^ 54 < P * (2 ^ 54 - 1)"
    using K1 P32 by simp
  then have "K / (2 ^ 54 - 1) < P / 2 ^ 54"
    by (simp add: divide_less_eq)
  moreover have "P * 2 powi (- 54) = 2 powi (k - 53)"
    unfolding P_def by (rule p2_split) simp
  then have "P / 2 ^ 54 = 2 powi (k - 53)"
    by (simp add: power_int_minus_divide)
  ultimately show ?thesis
    by (simp only: K_def k_def)
qed

subsection \<open>The two branches of the crop\<close>

lemma fit_width:
  assumes "0 < V" "fl V = V" "0 < K" "0 < t" "fl t = t" "t < fl (V / K)"
  shows "fl (K * t) \<le> V"
proof -
  have VK: "0 < V / K"
    using assms(1,3) by simp
  have "t < V / K"
  proof (rule ccontr)
    assume "\<not> t < V / K"
    then have "V / K \<le> t"
      by simp
    with VK have "fl (V / K) \<le> fl t"
      by (rule fl_mono)
    with assms(5,6) show False
      by simp
  qed
  then have "K * t < V"
    using assms(3) by (simp add: pos_less_divide_eq mult.commute)
  then have "K * t \<le> V"
    by simp
  moreover have "0 < K * t"
    using assms(3,4) by simp
  ultimately have "fl (K * t) \<le> fl V"
    by (rule fl_mono [rotated])
  then show ?thesis
    by (simp only: assms(2))
qed

lemma fit_height:
  fixes W H a b :: nat
  assumes H: "0 < H" "H < 2 ^ 32" and W: "0 < W" and b: "0 < b" "b \<le> 9"
    and t: "0 < t" "t \<le> of_nat a / of_nat b"
    and D: "fl (t + 2 powi (- 40)) = t + 2 powi (- 40)"
    and eps: "of_nat a / of_nat b \<le> t * (1 + 1 / (2 ^ 54 - 1))"
    and le: "fl (of_nat W / of_nat H) \<le> t"
  shows "fl (of_nat W / t) \<le> of_nat H"
proof -
  define V K q where "V = (of_nat W :: rat)" and "K = (of_nat H :: rat)"
    and "q = (of_nat a / of_nat b :: rat)"
  have K: "0 < K" "fl K = K"
    using nat_rat_bounds [OF H] by (simp_all add: K_def)
  have V: "0 < V"
    using W by (simp add: V_def)
  have q: "V / K \<le> q"
  proof (rule ccontr)
    assume "\<not> V / K \<le> q"
    then have "q < V / K"
      by simp
    then have "q + 2 powi (- 40) \<le> V / K"
      unfolding q_def V_def K_def by (rule gap [OF H b])
    then have "t + 2 powi (- 40) \<le> V / K"
      using t(2) by (simp add: q_def)
    moreover have "0 < t + 2 powi (- 40)"
      using t(1) p2_pos [of "- 40"] by simp
    ultimately have "fl (t + 2 powi (- 40)) \<le> fl (V / K)"
      by (rule fl_mono [rotated])
    then have "t + 2 powi (- 40) \<le> fl (V / K)"
      by (simp only: D)
    with le p2_pos [of "- 40"] show False
      by (simp add: V_def K_def)
  qed
  then have "V \<le> q * K"
    using K(1) by (simp add: pos_divide_le_eq)
  also have "q * K \<le> t * (1 + 1 / (2 ^ 54 - 1)) * K"
    using eps K(1) by (simp only: q_def mult_right_mono less_imp_le)
  finally have "V \<le> (K + K / (2 ^ 54 - 1)) * t"
    by (simp add: algebra_simps)
  then have Vt: "V / t \<le> K + K / (2 ^ 54 - 1)"
    using t(1) by (simp only: pos_divide_le_eq)
  have room: "K / (2 ^ 54 - 1) < 2 powi (ilog2 K - 53)"
    unfolding K_def by (rule half_ulp_room [OF H])
  have "fl (V / t) \<le> K"
  proof (cases "V / t \<le> K")
    case True
    moreover have "0 < V / t"
      using V t(1) by simp
    ultimately have "fl (V / t) \<le> fl K"
      by (rule fl_mono [rotated])
    then show ?thesis
      by (simp only: K(2))
  next
    case False
    then have ge: "K \<le> V / t"
      by simp
    have "V / t < K + 2 powi (ilog2 K - 53)"
      using Vt room by linarith
    with K ge have "fl (V / t) = K"
      by (rule fl_half_ulp)
    then show ?thesis
      by simp
  qed
  then show ?thesis
    by (simp only: V_def K_def)
qed

lemma u53: "(0::rat) < 2 powi (- 53)" "(2::rat) powi (- 53) \<le> 1 / 4"
  "4 * (2::rat) powi (- 53) = 2 powi (- 51)"
proof -
  show "(0::rat) < 2 powi (- 53)"
    by (rule p2_pos)
  have "(2::rat) powi (- 53) \<le> 2 powi (- 2)"
    by (rule p2_mono) simp
  then show "(2::rat) powi (- 53) \<le> 1 / 4"
    by (simp add: power_int_minus_divide)
  have "(2::rat) powi 2 * 2 powi (- 53) = 2 powi (- 51)"
    by (rule p2_split) simp
  then show "4 * (2::rat) powi (- 53) = 2 powi (- 51)"
    by simp
qed

lemma ratio_error_width:
  assumes "0 < K" "0 < t"
  shows "\<bar>fl (fl (K * t) / K) - t\<bar> \<le> t * 2 powi (- 51)"
proof -
  define u where "u = (2::rat) powi (- 53)"
  define c where "c = fl (K * t)"
  define z where "z = c / K"
  define a where "a = t * u"
  have u: "0 < u" "u \<le> 1 / 4" "4 * u = 2 powi (- 51)"
    using u53 by (simp_all add: u_def)
  have Kt: "0 < K * t"
    using assms by simp
  have c: "0 < c" "\<bar>c - K * t\<bar> \<le> K * t * u"
    unfolding c_def u_def using fl_positive [OF Kt] fl_rel [OF Kt] by simp_all
  have z: "0 < z"
    using c(1) assms(1) by (simp add: z_def)
  have a: "0 \<le> a"
    using assms(2) u(1) by (simp add: a_def)
  have "z - t = (c - K * t) / K"
    using assms(1) by (simp add: z_def diff_divide_distrib)
  then have "\<bar>z - t\<bar> = \<bar>c - K * t\<bar> / K"
    using assms(1) by (simp add: abs_divide)
  also have "\<dots> \<le> K * t * u / K"
    using c(2) assms(1) by (simp only: divide_right_mono less_imp_le)
  also have "\<dots> = a"
    using assms(1) by (simp add: a_def)
  finally have zt: "\<bar>z - t\<bar> \<le> a" .
  have fz: "\<bar>fl z - z\<bar> \<le> z * u"
    unfolding u_def by (rule fl_rel [OF z])
  have "z \<le> t + a"
    using zt by linarith
  then have "z * u \<le> (t + a) * u"
    using u(1) by (simp only: mult_right_mono less_imp_le)
  also have "\<dots> = a + a * u"
    by (simp add: a_def distrib_right)
  also have "a * u \<le> a * (1 / 4)"
    using a u(2) by (rule mult_left_mono [rotated])
  finally have "z * u \<le> a + a * (1 / 4)"
    by simp
  with fz zt a have "\<bar>fl z - t\<bar> \<le> 4 * a"
    by linarith
  also have "4 * a = t * 2 powi (- 51)"
    using u(3) by (simp add: a_def)
  finally show ?thesis
    by (simp only: z_def c_def)
qed

lemma ratio_error_height:
  assumes "0 < V" "0 < t"
  shows "\<bar>fl (V / fl (V / t)) - t\<bar> \<le> t * 2 powi (- 51)"
proof -
  define u where "u = (2::rat) powi (- 53)"
  define h where "h = fl (V / t)"
  define z where "z = V / h"
  define d where "d = z * u"
  have u: "0 < u" "u \<le> 1 / 4" "4 * u = 2 powi (- 51)"
    using u53 by (simp_all add: u_def)
  have Vt: "0 < V / t"
    using assms by simp
  have h: "0 < h" "\<bar>h - V / t\<bar> \<le> V / t * u"
    unfolding h_def u_def using fl_positive [OF Vt] fl_rel [OF Vt] by simp_all
  have z: "0 < z" "z * h = V"
    using h(1) assms(1) by (simp_all add: z_def)
  have "\<bar>h - V / t\<bar> * t \<le> V / t * u * t"
    using h(2) assms(2) by (simp only: mult_right_mono less_imp_le)
  moreover have "\<bar>h - V / t\<bar> * t = \<bar>h * t - V\<bar>"
  proof -
    have "\<bar>h - V / t\<bar> * t = \<bar>(h - V / t) * t\<bar>"
      using assms(2) by (simp add: abs_mult)
    also have "(h - V / t) * t = h * t - V"
      using assms(2) by (simp add: left_diff_distrib)
    finally show ?thesis .
  qed
  moreover have "V / t * u * t = V * u"
    using assms(2) by simp
  ultimately have ht: "\<bar>h * t - V\<bar> \<le> V * u"
    by simp
  have Vu: "V * u = d * h"
    using z(2) by (simp add: d_def mult.commute mult.left_commute)
  have e1: "(z - d) * h = V - V * u"
    using z(2) Vu by (simp add: left_diff_distrib)
  have e2: "(z + d) * h = V + V * u"
    using z(2) Vu by (simp add: distrib_right)
  have e3: "t * h = h * t"
    by (rule mult.commute)
  have "(z - d) * h \<le> t * h"
    unfolding e1 e3 using ht by linarith
  then have lo: "z - d \<le> t"
    using h(1) by (simp only: mult_le_cancel_right_pos)
  have "t * h \<le> (z + d) * h"
    unfolding e2 e3 using ht by linarith
  then have hi: "t \<le> z + d"
    using h(1) by (simp only: mult_le_cancel_right_pos)
  have d0: "0 \<le> d"
    using z(1) u(1) by (simp add: d_def)
  have "d \<le> z * (1 / 4)"
    unfolding d_def using u(2) z(1) by (intro mult_left_mono) simp_all
  with lo have z43: "z \<le> 4 / 3 * t"
    by linarith
  then have "d \<le> 4 / 3 * t * u"
    unfolding d_def using u(1) by (simp only: mult_right_mono less_imp_le)
  moreover have fz: "\<bar>fl z - z\<bar> \<le> d"
    unfolding d_def u_def by (rule fl_rel [OF z(1)])
  moreover have "0 \<le> t * u"
    using assms(2) u(1) by simp
  ultimately have "\<bar>fl z - t\<bar> \<le> 4 * (t * u)"
    using lo hi by linarith
  also have "4 * (t * u) = t * 2 powi (- 51)"
    using u(3) by simp
  finally show ?thesis
    by (simp only: z_def h_def)
qed

subsection \<open>The margins\<close>

lemma fl_half:
  assumes "0 < x"
  shows "fl (x / 2) = fl x / 2"
proof -
  let ?E = "ilog2 x"
  have b: "2 powi ?E \<le> x" "x < 2 powi (?E + 1)"
    using ilog2_bounds [OF assms] by simp_all
  have s1: "(2::rat) powi (?E - 1) * 2 powi 1 = 2 powi ?E"
    by (rule p2_split) simp
  have s2: "(2::rat) powi (?E - 1 + 1) = 2 powi ?E"
    by simp
  have s3: "(2::rat) powi (?E - 1 - 52) * 2 powi 1 = 2 powi (?E - 52)"
    by (rule p2_split) simp
  have x2: "0 < x / 2"
    using assms by simp
  have "2 powi (?E - 1) \<le> x / 2"
    using b(1) s1 by simp
  moreover have "x / 2 < 2 powi (?E - 1 + 1)"
  proof -
    have "(2::rat) powi ?E * 2 powi 1 = 2 powi (?E + 1)"
      by (rule p2_split) simp
    then have "x < 2 powi ?E * 2"
      using b(2) by simp
    then show ?thesis
      by (simp only: s2)
  qed
  ultimately have "fl (x / 2)
      = of_int (rne (x / 2 / 2 powi (?E - 1 - 52))) * 2 powi (?E - 1 - 52)"
    using x2 by (simp only: fl_eval)
  moreover have "x / 2 / 2 powi (?E - 1 - 52) = x / 2 powi (?E - 52)"
    using s3 by (simp add: mult.commute)
  moreover have "(2::rat) powi (?E - 1 - 52) = 2 powi (?E - 52) / 2"
    using s3 by simp
  ultimately show ?thesis
    by (simp only: fl_pos [OF assms])
qed

lemma fl_grid:
  assumes "2 powi g \<le> x"
  shows "\<exists>n. fl x = of_int n * 2 powi (g - 52)"
proof -
  have x: "0 < x"
    using assms p2_pos [of g] by linarith
  let ?E = "ilog2 x"
  have "(2::rat) powi g < 2 powi (?E + 1)"
    using assms ilog2_bounds [OF x] by linarith
  then have "g < ?E + 1"
    by (rule p2_less_cancel)
  then have "(2::rat) powi (?E - g) = of_int (2 ^ nat (?E - g))"
    by (intro p2_nat) simp
  moreover have "(2::rat) powi (?E - g) * 2 powi (g - 52) = 2 powi (?E - 52)"
    by (rule p2_split) simp
  ultimately have "fl x = of_int (rne (x / 2 powi (?E - 52)) * 2 ^ nat (?E - g)) * 2 powi (g - 52)"
    by (simp add: fl_pos [OF x] mult.assoc)
  then show ?thesis
    by blast
qed

lemma margin_grid:
  fixes N :: nat
  assumes "2 powi g \<le> x" "g \<le> 0" "fl x \<le> of_nat N"
  shows "of_nat N - fl x = 0 \<or> 2 powi (g - 52) \<le> of_nat N - fl x"
proof -
  obtain n where n: "fl x = of_int n * 2 powi (g - 52)"
    using fl_grid [OF assms(1)] by blast
  have e: "(0::rat) < 2 powi (g - 52)"
    by (rule p2_pos)
  have "(2::rat) powi (52 - g) = of_int (2 ^ nat (52 - g))"
    using assms(2) by (intro p2_nat) simp
  moreover have "(2::rat) powi (52 - g) * 2 powi (g - 52) = 2 powi 0"
    by (rule p2_split) simp
  ultimately have "(of_int (2 ^ nat (52 - g)) :: rat) * 2 powi (g - 52) = 1"
    by simp
  then have "(of_nat N :: rat) = of_int (int N * 2 ^ nat (52 - g)) * 2 powi (g - 52)"
    by (simp add: mult.assoc)
  then have d: "of_nat N - fl x = of_int (int N * 2 ^ nat (52 - g) - n) * 2 powi (g - 52)"
    by (simp add: n left_diff_distrib)
  define j where "j = int N * 2 ^ nat (52 - g) - n"
  have "0 \<le> of_int j * (2::rat) powi (g - 52)"
    using assms(3) d by (simp add: j_def)
  then have "0 \<le> j"
    using e by (simp add: zero_le_mult_iff)
  show ?thesis
  proof (cases "j = 0")
    case True
    then show ?thesis
      using d by (simp add: j_def)
  next
    case False
    with \<open>0 \<le> j\<close> have "1 \<le> j"
      by simp
    then have "(1::rat) \<le> of_int j"
      by simp
    then have "1 * 2 powi (g - 52) \<le> of_int j * (2::rat) powi (g - 52)"
      using e by (simp only: mult_right_mono less_imp_le)
    then show ?thesis
      using d by (simp add: j_def)
  qed
qed

lemma margin:
  assumes "m = 0 \<or> 2 powi (- 60) \<le> m" "m < 2 powi 40"
  shows "\<exists>x. js_div (round_double m) (Num 2) = Num x \<and> 0 \<le> x \<and>
           \<bar>x - m / 2\<bar> \<le> m / 2 * 2 powi (- 53)"
proof (cases "m = 0")
  case True
  then show ?thesis
    by (simp add: round_double_def)
next
  case False
  with assms(1) have lo: "2 powi (- 60) \<le> m"
    by simp
  then have m: "0 < m"
    using p2_pos [of "- 60"] by linarith
  have "(2::rat) powi (- 1022) \<le> 2 powi (- 60)"
    by (rule p2_mono) simp
  with lo have n1: "2 powi (- 1022) \<le> m"
    by linarith
  have "(2::rat) powi 40 < 2 powi 1023"
    by (rule p2_strict_mono) simp
  with assms(2) have n2: "m < 2 powi 1023"
    by linarith
  have r1: "round_double m = Num (fl m)"
    using n1 n2 by (rule round_double_normal)
  have "fl (2 powi (- 60)) \<le> fl m"
    using p2_pos [of "- 60"] lo by (rule fl_mono)
  then have f1: "2 powi (- 60) \<le> fl m"
    by (simp only: fl_p2)
  have "fl m \<le> fl (2 powi 40)"
    using m assms(2) by (intro fl_mono) simp_all
  then have f2: "fl m \<le> 2 powi 40"
    by (simp only: fl_p2)
  have fm: "0 < fl m"
    using m by (rule fl_positive)
  have h1: "(2::rat) powi (- 1022) \<le> fl m / 2"
  proof -
    have "(2::rat) powi (- 1022) \<le> 2 powi (- 61)"
      by (rule p2_mono) simp
    moreover have "(2::rat) powi (- 61) * 2 powi 1 = 2 powi (- 60)"
      by (rule p2_split) simp
    ultimately show ?thesis
      using f1 by simp
  qed
  have h2: "fl m / 2 < 2 powi 1023"
  proof -
    have "(2::rat) powi 40 < 2 powi 1023"
      by (rule p2_strict_mono) simp
    with f2 fm show ?thesis
      by linarith
  qed
  have "js_div (Num (fl m)) (Num 2) = round_double (fl m / 2)"
    by simp
  also have "\<dots> = Num (fl (fl m / 2))"
    using h1 h2 by (rule round_double_normal)
  also have "fl (fl m / 2) = fl m / 2"
    by (simp only: fl_half [OF fm] fl_idem [OF m])
  finally have c1: "js_div (round_double m) (Num 2) = Num (fl m / 2)"
    by (simp only: r1)
  have "\<bar>fl m - m\<bar> / 2 \<le> m * 2 powi (- 53) / 2"
    using fl_rel [OF m] by (simp only: divide_right_mono zero_le_numeral)
  moreover have "\<bar>fl m - m\<bar> / 2 = \<bar>fl m / 2 - m / 2\<bar>"
    by (simp add: diff_divide_distrib [symmetric])
  ultimately have c2: "\<bar>fl m / 2 - m / 2\<bar> \<le> m / 2 * 2 powi (- 53)"
    by simp
  have c3: "0 \<le> fl m / 2"
    using fm by simp
  from c1 c3 c2 show ?thesis
    by blast
qed

subsection \<open>The four ratios\<close>

lemma ratio_facts:
  assumes "ratio \<in> set RATIOS"
  obtains t and a b :: nat where
    "val ratio = Num t" "1 \<le> t" "t < 2" "fl t = t" "0 < b" "b \<le> 9"
    "t \<le> of_nat a / of_nat b" "fl (t + 2 powi (- 40)) = t + 2 powi (- 40)"
    "of_nat a / of_nat b \<le> t * (1 + 1 / (2 ^ 54 - 1))"
proof -
  from assms have "val ratio \<in> set (map val RATIOS)"
    by simp
  then consider "val ratio = Num 1"
    | "val ratio = Num (6004799503160661 / 4503599627370496)"
    | "val ratio = Num (3 / 2)"
    | "val ratio = Num (8006399337547548 / 4503599627370496)"
    unfolding val_RATIOS by auto
  then show thesis
  proof cases
    case 1
    have "fl 1 = 1"
      using fl_p2 [of 0] by simp
    moreover have "fl (1 + 2 powi (- 40)) = 1 + 2 powi (- 40)"
      using fl_repr [of "4503599627374592" "- 52"] by (simp add: power_int_minus_divide)
    ultimately show thesis
      using 1 by (intro that [where t = 1 and a = 1 and b = 1]) simp_all
  next
    case 2
    have "fl (6004799503160661 / 4503599627370496) = 6004799503160661 / 4503599627370496"
      using fl_repr [of "6004799503160661" "- 52"] by (simp add: power_int_minus_divide)
    moreover have "fl (6004799503160661 / 4503599627370496 + 2 powi (- 40))
        = 6004799503160661 / 4503599627370496 + 2 powi (- 40)"
      using fl_repr [of "6004799503164757" "- 52"] by (simp add: power_int_minus_divide)
    ultimately show thesis
      using 2 by (intro that [where t = "6004799503160661 / 4503599627370496" and a = 4 and b = 3]) simp_all
  next
    case 3
    have "fl (3 / 2 + 2 powi (- 40)) = 3 / 2 + 2 powi (- 40)"
      using fl_repr [of "6755399441059840" "- 52"] by (simp add: power_int_minus_divide)
    then show thesis
      using 3 fl_3_2 by (intro that [where t = "3 / 2" and a = 3 and b = 2]) simp_all
  next
    case 4
    have "fl (8006399337547548 / 4503599627370496) = 8006399337547548 / 4503599627370496"
      using fl_repr [of "8006399337547548" "- 52"] by (simp add: power_int_minus_divide)
    moreover have "fl (8006399337547548 / 4503599627370496 + 2 powi (- 40))
        = 8006399337547548 / 4503599627370496 + 2 powi (- 40)"
      using fl_repr [of "8006399337551644" "- 52"] by (simp add: power_int_minus_divide)
    ultimately show thesis
      using 4 by (intro that [where t = "8006399337547548 / 4503599627370496" and a = 16 and b = 9]) simp_all
  qed
qed

lemma quot_range:
  fixes a b :: rat
  assumes "2 powi (- 1) \<le> a" "a \<le> 2 powi 33" "2 powi (- 1) \<le> b" "b \<le> 2 powi 33"
  shows "2 powi (- 40) \<le> a / b" "a / b \<le> 2 powi 40"
proof -
  have a: "0 < a" and b: "0 < b"
    using assms(1,3) p2_pos [of "- 1"] by linarith+
  have "(2::rat) powi (- 40) \<le> 2 powi (- 34)"
    by (rule p2_mono) simp
  also have "\<dots> = 2 powi (- 1) / 2 powi 33"
    using p2_diff [of "- 1" 33] by simp
  also have "\<dots> \<le> a / b"
    using assms(1,4) b p2_pos [of "- 1"] by (intro frac_le) simp_all
  finally show "2 powi (- 40) \<le> a / b" .
  have "a / b \<le> 2 powi 33 / 2 powi (- 1)"
    using assms(2,3) a p2_pos [of "- 1"] by (intro frac_le) simp_all
  also have "\<dots> = 2 powi 34"
    using p2_diff [of 33 "- 1"] by simp
  also have "\<dots> \<le> 2 powi 40"
    by (rule p2_mono) simp
  finally show "a / b \<le> 2 powi 40" .
qed

lemma round_double_0: "round_double 0 = Num 0"
  by (simp add: round_double_def)

lemma handleCapture_reachable:
  assumes "reachable s"
  shows "\<exists>r \<in> set RATIOS. currentRatio s = Some r \<and>
           handleCapture s (Some (videoWidth, videoHeight))
             = Inr (crop_region (Num (of_nat videoWidth)) (Num (of_nat videoHeight)) (val r))"
proof -
  from assms have "0 \<le> ratioIndex s" "ratioIndex s < 4"
    using reachable_ratioIndex_range by simp_all
  then have "currentRatio s = Some (RATIOS ! nat (ratioIndex s))" "nat (ratioIndex s) < length RATIOS"
    by (simp_all add: currentRatio_def js_index_def length_RATIOS)
  then show ?thesis
    by (simp add: handleCapture_def)
qed

lemma margin_self: "js_div (round_double (A - A)) (Num 2) = Num 0"
  by (simp add: round_double_0)

subsection \<open>The crop region\<close>

text \<open>
  C8, amended. For a video whose width and height are integers from 1 to \<open>2 ^ 32 - 1\<close>
  and every ratio of the table, the crop region of \<open>handleCapture\<close> consists of finite
  numbers; the crop is positive and fits inside the frame (\<open>cropWidth \<le> videoWidth\<close>,
  \<open>cropHeight \<le> videoHeight\<close>) and one of its sides is the side of the frame; \<open>sx\<close>
  and \<open>sy\<close> are not negative and are the halves of the two margins up to one rounding
  (relative error at most \<open>2 ^ - 53\<close>); and the quotient \<open>cropWidth / cropHeight\<close>,
  computed as the program would, differs from the target ratio by at most \<open>2 ^ - 51\<close>
  times the target ratio (it need not be equal to it). In every state the page can
  reach, \<open>handleCapture\<close> on a mounted video returns this crop region for the current
  ratio, which is a ratio of the table.
\<close>

theorem crop_region_fits:
  fixes videoWidth videoHeight :: nat
  assumes W: "0 < videoWidth" "videoWidth < 2 ^ 32"
    and H: "0 < videoHeight" "videoHeight < 2 ^ 32"
    and ratio: "ratio \<in> set RATIOS"
  shows "(\<exists>t w h x y q.
      val ratio = Num t \<and>
      crop_region (Num (of_nat videoWidth)) (Num (of_nat videoHeight)) (val ratio)
        = \<lparr>sx = Num x, sy = Num y, cropWidth = Num w, cropHeight = Num h\<rparr> \<and>
      0 < w \<and> w \<le> of_nat videoWidth \<and> 0 < h \<and> h \<le> of_nat videoHeight \<and>
      (w = of_nat videoWidth \<or> h = of_nat videoHeight) \<and>
      0 \<le> x \<and> \<bar>x - (of_nat videoWidth - w) / 2\<bar> \<le> (of_nat videoWidth - w) / 2 * 2 powi (- 53) \<and>
      0 \<le> y \<and> \<bar>y - (of_nat videoHeight - h) / 2\<bar> \<le> (of_nat videoHeight - h) / 2 * 2 powi (- 53) \<and>
      js_div (Num w) (Num h) = Num q \<and> \<bar>q - t\<bar> \<le> t * 2 powi (- 51)) \<and>
    (reachable s \<longrightarrow>
      (\<exists>r \<in> set RATIOS. currentRatio s = Some r \<and>
         handleCapture s (Some (videoWidth, videoHeight))
           = Inr (crop_region (Num (of_nat videoWidth)) (Num (of_nat videoHeight)) (val r))))"
proof -
  define V K where "V = (of_nat videoWidth :: rat)" and "K = (of_nat videoHeight :: rat)"
  obtain t and a b :: nat where t: "val ratio = Num t" "1 \<le> t" "t < 2" "fl t = t"
    and b: "0 < b" "b \<le> 9"
    and q: "t \<le> of_nat a / of_nat b" "fl (t + 2 powi (- 40)) = t + 2 powi (- 40)"
      "of_nat a / of_nat b \<le> t * (1 + 1 / (2 ^ 54 - 1))"
    using ratio_facts [OF ratio] by blast
  have V: "1 \<le> V" "V < 2 powi 32" "fl V = V"
    using nat_rat_bounds [OF W] by (simp_all add: V_def)
  have K: "1 \<le> K" "K < 2 powi 32" "fl K = K"
    using nat_rat_bounds [OF H] by (simp_all add: K_def)
  have p: "(2::rat) powi (- 1) \<le> 1" "(2::rat) powi 32 \<le> 2 powi 33" "(2::rat) powi 1 = 2"
    "(2::rat) powi 0 = 1" "(2::rat) powi (- 60) \<le> 2 powi (- 53)"
    "(2::rat) powi (- 53) \<le> 2 powi (- 52)" "(2::rat) powi 32 \<le> 2 powi 40"
    "(2::rat) \<le> 2 powi 33"
    using p2_mono [of "- 1" 0] p2_mono [of 32 33] p2_mono [of "- 60" "- 53"]
      p2_mono [of "- 53" "- 52"] p2_mono [of 32 40] p2_mono [of 1 33] by simp_all
  have V0: "0 < V" and K0: "0 < K" and t0: "0 < t"
    using V(1) K(1) t(2) by simp_all
  have Vr: "2 powi (- 1) \<le> V" "V \<le> 2 powi 33" and Kr: "2 powi (- 1) \<le> K" "K \<le> 2 powi 33"
    and tr: "2 powi (- 1) \<le> t" "t \<le> 2 powi 33"
    using V K t(2,3) p by linarith+
  have "js_div (Num V) (Num K) = round_double (V / K)"
    using K0 by simp
  also have "\<dots> = Num (fl (V / K))"
    using quot_range [OF Vr Kr] by (rule round_double_mid)
  finally have vr: "js_div (Num V) (Num K) = Num (fl (V / K))" .
  have main: "\<exists>w h x y q.
      crop_region (Num V) (Num K) (Num t)
        = \<lparr>sx = Num x, sy = Num y, cropWidth = Num w, cropHeight = Num h\<rparr> \<and>
      0 < w \<and> w \<le> V \<and> 0 < h \<and> h \<le> K \<and> (w = V \<or> h = K) \<and>
      0 \<le> x \<and> \<bar>x - (V - w) / 2\<bar> \<le> (V - w) / 2 * 2 powi (- 53) \<and>
      0 \<le> y \<and> \<bar>y - (K - h) / 2\<bar> \<le> (K - h) / 2 * 2 powi (- 53) \<and>
      js_div (Num w) (Num h) = Num q \<and> \<bar>q - t\<bar> \<le> t * 2 powi (- 51)"
  proof (cases "t < fl (V / K)")
    case True
    define c where "c = fl (K * t)"
    have Kt: "1 \<le> K * t"
      using K(1) t(2) mult_mono [of 1 K 1 t] by simp
    have "K * t \<le> 2 powi 32 * 2 powi 1"
      using K(2) t(3) K0 t0 p(3) by (intro mult_mono) simp_all
    also have "\<dots> = 2 powi 33"
      by (rule p2_split) simp
    finally have Kt2: "K * t \<le> 2 powi 33" .
    have "(2::rat) powi (- 40) \<le> 2 powi 0" "(2::rat) powi 33 \<le> 2 powi 40"
      by (rule p2_mono, simp)+
    then have "2 powi (- 40) \<le> K * t" "K * t \<le> 2 powi 40"
      using Kt Kt2 p(4) by linarith+
    then have "round_double (K * t) = Num (fl (K * t))"
      by (rule round_double_mid)
    then have cw: "js_mul (Num K) (Num t) = Num c"
      by (simp add: c_def)
    have c_le: "c \<le> V"
      unfolding c_def using V0 V(3) K0 t0 t(4) True by (rule fit_width)
    have "fl 1 \<le> fl (K * t)"
      using Kt by (intro fl_mono) simp_all
    moreover have "fl 1 = 1"
      using fl_p2 [of 0] by simp
    ultimately have c1: "1 \<le> c"
      by (simp only: c_def)
    then have c0: "0 < c"
      by simp
    have crop: "crop_region (Num V) (Num K) (Num t)
        = \<lparr>sx = js_div (round_double (V - c)) (Num 2), sy = Num 0,
            cropWidth = Num c, cropHeight = Num K\<rparr>"
    proof -
      have "js_gt (Num (fl (V / K))) (Num t)"
        using True by simp
      then show ?thesis
        unfolding crop_region_def Let_def vr cw
        by (simp only: if_True js_sub.simps margin_self)
    qed
    have "2 powi 0 \<le> K * t"
      using Kt by (simp only: p(4))
    moreover have "fl (K * t) \<le> of_nat videoWidth"
      using c_le by (simp only: c_def V_def)
    ultimately have "of_nat videoWidth - fl (K * t) = 0
        \<or> 2 powi (0 - 52) \<le> of_nat videoWidth - fl (K * t)"
      by (intro margin_grid) simp_all
    then have "V - c = 0 \<or> 2 powi (- 60) \<le> V - c"
      using p(5,6) by (auto simp add: c_def V_def)
    moreover have "V - c < 2 powi 40"
      using V(2) c0 p(7) by linarith
    ultimately obtain x where x: "js_div (round_double (V - c)) (Num 2) = Num x" "0 \<le> x"
      "\<bar>x - (V - c) / 2\<bar> \<le> (V - c) / 2 * 2 powi (- 53)"
      using margin [of "V - c"] by blast
    have cr: "2 powi (- 1) \<le> c" "c \<le> 2 powi 33"
      using c1 c_le Vr(2) p(1) by linarith+
    have "js_div (Num c) (Num K) = round_double (c / K)"
      using K0 by simp
    also have "\<dots> = Num (fl (c / K))"
      using quot_range [OF cr Kr] by (rule round_double_mid)
    finally have qq: "js_div (Num c) (Num K) = Num (fl (c / K))" .
    have err: "\<bar>fl (c / K) - t\<bar> \<le> t * 2 powi (- 51)"
      unfolding c_def using K0 t0 by (rule ratio_error_width)
    have m0: "\<bar>0 - (K - K) / 2\<bar> \<le> (K - K) / 2 * 2 powi (- 53)" "(0::rat) \<le> 0"
      by simp_all
    from crop x c0 c_le K0 qq err m0 show ?thesis
      by (simp only: x(1)) blast
  next
    case False
    define h where "h = fl (V / t)"
    have "js_div (Num V) (Num t) = round_double (V / t)"
      using t0 by simp
    also have "\<dots> = Num (fl (V / t))"
      using quot_range [OF Vr tr] by (rule round_double_mid)
    finally have ch: "js_div (Num V) (Num t) = Num h"
      by (simp only: h_def)
    have le: "fl (of_nat videoWidth / of_nat videoHeight) \<le> t"
      using False by (simp add: V_def K_def)
    have h_le: "h \<le> K"
      unfolding h_def V_def K_def using H W(1) b t0 q le by (rule fit_height)
    have half: "2 powi (- 1) \<le> V / t"
    proof -
      have "1 / 2 \<le> V / 2"
        using V(1) by simp
      also have "V / 2 \<le> V / t"
        using t0 t(3) V0 by (intro divide_left_mono) simp_all
      finally show ?thesis
        by (simp add: power_int_minus_divide)
    qed
    then have "fl (2 powi (- 1)) \<le> fl (V / t)"
      using p2_pos [of "- 1"] by (intro fl_mono)
    then have h1: "2 powi (- 1) \<le> h"
      by (simp only: fl_p2 h_def)
    then have h0: "0 < h"
      using p2_pos [of "- 1"] by linarith
    have crop: "crop_region (Num V) (Num K) (Num t)
        = \<lparr>sx = Num 0, sy = js_div (round_double (K - h)) (Num 2),
            cropWidth = Num V, cropHeight = Num h\<rparr>"
    proof -
      have "\<not> js_gt (Num (fl (V / K))) (Num t)"
        using False by simp
      then show ?thesis
        unfolding crop_region_def Let_def vr ch
        by (simp only: if_False js_sub.simps margin_self)
    qed
    have "fl (V / t) \<le> of_nat videoHeight"
      using h_le by (simp only: h_def K_def)
    with half have "of_nat videoHeight - fl (V / t) = 0
        \<or> 2 powi (- 1 - 52) \<le> of_nat videoHeight - fl (V / t)"
      by (intro margin_grid) simp_all
    then have "K - h = 0 \<or> 2 powi (- 60) \<le> K - h"
      using p(5) by (auto simp add: h_def K_def)
    moreover have "K - h < 2 powi 40"
      using K(2) h0 p(7) by linarith
    ultimately obtain y where y: "js_div (round_double (K - h)) (Num 2) = Num y" "0 \<le> y"
      "\<bar>y - (K - h) / 2\<bar> \<le> (K - h) / 2 * 2 powi (- 53)"
      using margin [of "K - h"] by blast
    have hr: "2 powi (- 1) \<le> h" "h \<le> 2 powi 33"
      using h1 h_le Kr(2) by linarith+
    have "js_div (Num V) (Num h) = round_double (V / h)"
      using h0 by simp
    also have "\<dots> = Num (fl (V / h))"
      using quot_range [OF Vr hr] by (rule round_double_mid)
    finally have qq: "js_div (Num V) (Num h) = Num (fl (V / h))" .
    have err: "\<bar>fl (V / h) - t\<bar> \<le> t * 2 powi (- 51)"
      unfolding h_def using V0 t0 by (rule ratio_error_height)
    have m0: "\<bar>0 - (V - V) / 2\<bar> \<le> (V - V) / 2 * 2 powi (- 53)" "(0::rat) \<le> 0"
      by simp_all
    from crop y h0 h_le V0 qq err m0 show ?thesis
      by (simp only: y(1)) blast
  qed
  then have "\<exists>t w h x y q.
      val ratio = Num t \<and>
      crop_region (Num (of_nat videoWidth)) (Num (of_nat videoHeight)) (val ratio)
        = \<lparr>sx = Num x, sy = Num y, cropWidth = Num w, cropHeight = Num h\<rparr> \<and>
      0 < w \<and> w \<le> of_nat videoWidth \<and> 0 < h \<and> h \<le> of_nat videoHeight \<and>
      (w = of_nat videoWidth \<or> h = of_nat videoHeight) \<and>
      0 \<le> x \<and> \<bar>x - (of_nat videoWidth - w) / 2\<bar> \<le> (of_nat videoWidth - w) / 2 * 2 powi (- 53) \<and>
      0 \<le> y \<and> \<bar>y - (of_nat videoHeight - h) / 2\<bar> \<le> (of_nat videoHeight - h) / 2 * 2 powi (- 53) \<and>
      js_div (Num w) (Num h) = Num q \<and> \<bar>q - t\<bar> \<le> t * 2 powi (- 51)"
    unfolding V_def K_def t(1) [symmetric] using t(1) by blast
  then show ?thesis
    using handleCapture_reachable [of s videoWidth videoHeight] by blast
qed

theorem crop_region_fits_witness:
  "(0::nat) < 1920 \<and> (1920::nat) < 2 ^ 32 \<and> (0::nat) < 1080 \<and> (1080::nat) < 2 ^ 32 \<and>
   RATIOS ! 1 \<in> set RATIOS \<and> reachable (switchRatio initial) \<and>
   (\<exists>t w h x y q.
      val (RATIOS ! 1) = Num t \<and>
      crop_region (Num 1920) (Num 1080) (val (RATIOS ! 1))
        = \<lparr>sx = Num x, sy = Num y, cropWidth = Num w, cropHeight = Num h\<rparr> \<and>
      0 < w \<and> w \<le> 1920 \<and> 0 < h \<and> h \<le> 1080 \<and> (w = 1920 \<or> h = 1080) \<and>
      0 \<le> x \<and> \<bar>x - (1920 - w) / 2\<bar> \<le> (1920 - w) / 2 * 2 powi (- 53) \<and>
      0 \<le> y \<and> \<bar>y - (1080 - h) / 2\<bar> \<le> (1080 - h) / 2 * 2 powi (- 53) \<and>
      js_div (Num w) (Num h) = Num q \<and> \<bar>q - t\<bar> \<le> t * 2 powi (- 51)) \<and>
   (\<exists>r \<in> set RATIOS. currentRatio (switchRatio initial) = Some r \<and>
      handleCapture (switchRatio initial) (Some (1920, 1080))
        = Inr (crop_region (Num 1920) (Num 1080) (val r)))"
proof -
  have m: "RATIOS ! 1 \<in> set RATIOS"
    by (simp add: RATIOS_def)
  have r: "reachable (switchRatio initial)"
    by (intro reachable.ratio reachable.start)
  have b: "(0::nat) < 1920" "(1920::nat) < 2 ^ 32" "(0::nat) < 1080" "(1080::nat) < 2 ^ 32"
    by simp_all
  show ?thesis
    using crop_region_fits [OF b m, of "switchRatio initial"] m r by simp
qed

end
